theory Spec2Isabelle
  imports Main
begin

unbundle bit_operations_syntax

section \<open>Constants of delivery.c and of the system headers it uses\<close>

definition MAXCLIENT :: nat where "MAXCLIENT = 1024"
definition DELIVERYPID :: string where "DELIVERYPID = ''_DELIVERY_PID''"
definition TMPDIR :: string where "TMPDIR = ''/tmp''"

text \<open>Error numbers, signal numbers and the non-blocking flag carry the values of the Linux
  headers; on Linux \<open>EWOULDBLOCK\<close> and \<open>EAGAIN\<close> are the same number.\<close>

definition EINTR :: int where "EINTR = 4"
definition EIO :: int where "EIO = 5"
definition EBADF :: int where "EBADF = 9"
definition EAGAIN :: int where "EAGAIN = 11"
definition EWOULDBLOCK :: int where "EWOULDBLOCK = 11"
definition EINVAL :: int where "EINVAL = 22"

definition SIGHUP :: int where "SIGHUP = 1"
definition SIGINT :: int where "SIGINT = 2"
definition SIGKILL :: int where "SIGKILL = 9"
definition SIGPIPE :: int where "SIGPIPE = 13"
definition SIGTERM :: int where "SIGTERM = 15"
definition SIGCHLD :: int where "SIGCHLD = 17"

definition O_NONBLOCK :: int where "O_NONBLOCK = 2048"

text \<open>The conversion of an integer value to \<open>int\<close> (32 bits, two's complement) and the range
  of \<open>long\<close> (64 bits).\<close>

definition int32 :: "int \<Rightarrow> int" where
  "int32 v = (v + 2147483648) mod 4294967296 - 2147483648"

definition LONG_MAX :: int where "LONG_MAX = 9223372036854775807"
definition LONG_MIN :: int where "LONG_MIN = - 9223372036854775808"

section \<open>The process state\<close>

text \<open>What the operating system answers to a call is an input of the model: every call whose
  result the program looks at takes the next entry of a script. \<open>Ok v\<close> is a call that
  succeeds with value \<open>v\<close> and leaves \<open>errno\<close> alone, \<open>Fail e\<close> a call that fails and
  sets \<open>errno\<close> to \<open>e\<close>, \<open>Data d\<close> a read that transfers the bytes \<open>d\<close>. A call that
  finds the script empty has not returned yet (\<open>Stuck\<close>).\<close>

datatype sysret = Ok int | Fail int | Data string

datatype handler = SIG_DFL | SIG_IGN | H_reopen_src | H_sig_die

datatype atexit_fn = A_rm_pidfile | A_rm_sockfile

text \<open>The calls the process issues, in order. \<open>DieMsg\<close> is the line \<open>die\<close> prints; the
  other diagnostics on standard error and standard output are not modelled.\<close>

datatype event =
    Unlink "string option"
  | Close int
  | Pclose int
  | Popen "string option" "(string \<times> string) list" int
  | Write int int int int
  | Fread int int
  | Socket int
  | Bind int "string option" int
  | Listen int int int
  | Accept int int
  | SetFl int int int
  | Connect int "string option" int
  | Dup2 int int int
  | Execvp "string list"
  | Kill int int int
  | OpenLock "string option" int
  | Flock int int
  | WritePid "string option" int
  | DieMsg "string option" int

record state =
  src :: "int option"
  src_fd :: int
  src_kill :: int
  fd :: "int list"
  cnt :: nat
  reopen :: bool
  buffer :: "string option"
  bufsz :: int
  errno :: int
  world :: bool
  tmpbasename :: "string option"
  PIDFILE :: "string option"
  SOCKFILE :: "string option"
  LOCKFILE :: "string option"
  pid :: int
  environ :: "(string \<times> string) list"
  umask_v :: int
  handlers :: "int \<Rightarrow> handler"
  atexit_fns :: "atexit_fn list"
  oflags :: "int \<Rightarrow> int option"
  script :: "sysret list"
  trace :: "event list"

text \<open>How the process ends: \<open>exit(e)\<close>, the failed \<open>assert\<close>, or a successful
  \<open>execvp\<close>, which replaces the process image.\<close>

datatype ending = Exited int | Aborted | Execed

datatype 'a result = Stuck | Halt ending state | Ret 'a state

fun bnd :: "'a result \<Rightarrow> ('a \<Rightarrow> state \<Rightarrow> 'b result) \<Rightarrow> 'b result" where
  "bnd Stuck f = Stuck"
| "bnd (Halt e s) f = Halt e s"
| "bnd (Ret x s) f = f x s"

definition emit :: "event \<Rightarrow> state \<Rightarrow> state" where
  "emit ev s = s\<lparr>trace := trace s @ [ev]\<rparr>"

definition syscall :: "state \<Rightarrow> int result" where
  "syscall s =
     (case script s of
        [] \<Rightarrow> Stuck
      | Ok v # rs \<Rightarrow> Ret v (s\<lparr>script := rs\<rparr>)
      | Fail e # rs \<Rightarrow> Ret (- 1) (s\<lparr>script := rs, errno := e\<rparr>)
      | Data d # rs \<Rightarrow> Ret (int (length d)) (s\<lparr>script := rs\<rparr>))"

text \<open>The registry of connected clients: the first \<open>cnt\<close> cells of the array \<open>fd\<close>.\<close>

definition registry :: "state \<Rightarrow> int list" where
  "registry s = take (cnt s) (fd s)"

section \<open>Leaving the process: \<open>rm_sockfile\<close>, \<open>rm_pidfile\<close>, \<open>close_src\<close>, \<open>die\<close>\<close>

definition rm_pidfile :: "state \<Rightarrow> state" where
  "rm_pidfile s = emit (Unlink (PIDFILE s)) s"

definition rm_sockfile :: "state \<Rightarrow> state" where
  "rm_sockfile s =
     emit (Unlink (SOCKFILE s))
       (if src_fd s \<noteq> 0 then (emit (Close (src_fd s)) s)\<lparr>src_fd := 0\<rparr> else s)"

definition signal :: "int \<Rightarrow> handler \<Rightarrow> state \<Rightarrow> state" where
  "signal sg h s = (if sg = SIGKILL then s else s\<lparr>handlers := (handlers s)(sg := h)\<rparr>)"

definition close_src :: "state \<Rightarrow> state" where
  "close_src s =
     (case src s of
        Some h \<Rightarrow> (signal SIGCHLD H_sig_die (emit (Pclose h) (signal SIGCHLD SIG_DFL s)))\<lparr>src := None\<rparr>
      | None \<Rightarrow> s)\<lparr>reopen := False\<rparr>"

text \<open>\<open>while ( cnt ) close(fd[--cnt]);\<close>\<close>

function close_clients :: "state \<Rightarrow> state" where
  "close_clients s =
     (if cnt s \<noteq> 0 then close_clients (emit (Close (fd s ! (cnt s - 1))) (s\<lparr>cnt := cnt s - 1\<rparr>))
      else s)"
  by pat_completeness auto
termination
  by (relation "measure cnt") (auto simp: emit_def)

declare close_clients.simps [simp del]

text \<open>\<open>exit\<close> runs the functions registered with \<open>atexit\<close>, the last registered first
  (\<open>atexit_fns\<close> holds them in that order).\<close>

fun run_atexit :: "atexit_fn list \<Rightarrow> state \<Rightarrow> state" where
  "run_atexit [] s = s"
| "run_atexit (A_rm_pidfile # fs) s = run_atexit fs (rm_pidfile s)"
| "run_atexit (A_rm_sockfile # fs) s = run_atexit fs (rm_sockfile s)"

definition atexit :: "atexit_fn \<Rightarrow> state \<Rightarrow> state" where
  "atexit f s = s\<lparr>atexit_fns := f # atexit_fns s\<rparr>"

definition exit_proc :: "int \<Rightarrow> state \<Rightarrow> 'a result" where
  "exit_proc e s = Halt (Exited e) (run_atexit (atexit_fns s) s)"

definition die :: "string option \<Rightarrow> int \<Rightarrow> state \<Rightarrow> 'a result" where
  "die message e s =
     (let s1 = rm_pidfile (rm_sockfile s);
          s2 = (if message \<noteq> None then emit (DieMsg message e) s1 else s1);
          s3 = close_clients (close_src s2)
      in exit_proc e s3)"

definition sig_die :: "int \<Rightarrow> state \<Rightarrow> 'a result" where
  "sig_die sg s = die (Some ''signal, die'') sg s"

section \<open>The broadcast pass: \<open>write_buf\<close>\<close>

text \<open>\<open>write(fd[i], buffer + off, nr)\<close>: the call is recorded with its result.\<close>

definition sys_write :: "int \<Rightarrow> int \<Rightarrow> int \<Rightarrow> state \<Rightarrow> int result" where
  "sys_write f off nr s = bnd (syscall s) (\<lambda>nw s'. Ret nw (emit (Write f off nr nw) s'))"

lemma syscall_script:
  "syscall s = Ret v s' \<Longrightarrow> length (script s') < length (script s)"
  by (auto simp: syscall_def split: list.splits sysret.splits)

lemma sys_write_script:
  "sys_write f off nr s = Ret v s' \<Longrightarrow> length (script s') < length (script s)"
  by (cases "syscall s") (auto simp: sys_write_def emit_def dest: syscall_script)

text \<open>The inner loop of \<open>write_buf\<close>: it leaves with \<open>nr = 0\<close> when the whole buffer went out
  and with \<open>nr \<noteq> 0\<close> at the \<open>break\<close>.\<close>

function write_all :: "nat \<Rightarrow> int \<Rightarrow> int \<Rightarrow> state \<Rightarrow> int result" where
  "write_all i off nr s =
     (if nr = 0 then Ret nr s
      else
        (case sys_write (fd s ! i) off nr s of
           Stuck \<Rightarrow> Stuck
         | Halt e s' \<Rightarrow> Halt e s'
         | Ret nw s' \<Rightarrow>
             if nw < 0 then (if errno s' \<noteq> EINTR then Ret nr s' else write_all i off nr s')
             else write_all i (off + nw) (nr - nw) s'))"
  by pat_completeness auto
termination
  by (relation "measure (\<lambda>(i, off, nr, s). length (script s))")
     (auto dest: sys_write_script)

declare write_all.simps [simp del]

text \<open>\<open>for ( j=i+1; j<cnt; j+=1 ) fd[j-1] = fd[j];\<close>\<close>

function shift_down :: "nat \<Rightarrow> nat \<Rightarrow> int list \<Rightarrow> int list" where
  "shift_down j c xs = (if j < c then shift_down (j + 1) c (xs[j - 1 := xs ! j]) else xs)"
  by pat_completeness auto
termination
  by (relation "measure (\<lambda>(j, c, xs). c - j)") auto

declare shift_down.simps [simp del]

text \<open>The unsuccessful write: close this client, shift the later ones down, clear the freed
  cell.\<close>

definition drop_client :: "nat \<Rightarrow> state \<Rightarrow> state" where
  "drop_client i s =
     (let s1 = emit (Close (fd s ! i)) s;
          xs = shift_down (i + 1) (cnt s1) (fd s1);
          c = cnt s1 - 1
      in s1\<lparr>fd := xs[c := 0], cnt := c\<rparr>)"

lemma write_all_cnt:
  "write_all i off nr s = Ret v s' \<Longrightarrow> cnt s' = cnt s"
proof (induction i off nr s rule: write_all.induct)
  case (1 i off nr s)
  show ?case
  proof (cases "nr = 0")
    case True
    with "1.prems" show ?thesis by (simp add: write_all.simps)
  next
    case False
    note nz = this
    show ?thesis
    proof (cases "sys_write (fd s ! i) off nr s")
      case Stuck
      with nz "1.prems" show ?thesis by (simp add: write_all.simps)
    next
      case (Halt e t)
      with nz "1.prems" show ?thesis by (simp add: write_all.simps)
    next
      case (Ret nw t)
      have ct: "cnt t = cnt s"
        using Ret by (cases "syscall s")
          (auto simp: sys_write_def emit_def syscall_def split: list.splits sysret.splits)
      show ?thesis
        using nz Ret "1.prems" "1.IH"(1)[OF nz Ret] "1.IH"(2)[OF nz Ret] ct
        by (auto simp: write_all.simps[of i off nr s] split: if_splits)
    qed
  qed
qed

function write_loop :: "nat \<Rightarrow> state \<Rightarrow> unit result" where
  "write_loop i s =
     (if i < cnt s then
        (case write_all i 0 (bufsz s) s of
           Stuck \<Rightarrow> Stuck
         | Halt e s' \<Rightarrow> Halt e s'
         | Ret nr s' \<Rightarrow>
             if nr = 0 then write_loop (i + 1) s'
             else write_loop i (drop_client i s'))
      else Ret () s)"
  by pat_completeness auto
termination
  by (relation "measure (\<lambda>(i, s). cnt s - i)")
     (auto dest!: write_all_cnt simp: drop_client_def emit_def Let_def)

declare write_loop.simps [simp del]

definition write_buf :: "state \<Rightarrow> unit result" where
  "write_buf s = write_loop 0 s"

section \<open>Blocking and non-blocking descriptors\<close>

text \<open>\<open>oflags\<close> is the kernel's side of \<open>fcntl\<close>: the status flags of a descriptor as a
  successful \<open>F_SETFL\<close> last set them. What \<open>F_GETFL\<close> returns is the script's.\<close>

definition sys_setfl :: "int \<Rightarrow> int \<Rightarrow> state \<Rightarrow> int result" where
  "sys_setfl f v s =
     bnd (syscall s) (\<lambda>r s'.
       Ret r (emit (SetFl f v r) (if r \<noteq> - 1 then s'\<lparr>oflags := (oflags s')(f \<mapsto> v)\<rparr> else s')))"

definition mk_blocking :: "int \<Rightarrow> state \<Rightarrow> unit result" where
  "mk_blocking f s =
     bnd (syscall s) (\<lambda>flags s1.
       if flags = - 1 then die (Some ''get flags'') (errno s1) s1
       else bnd (sys_setfl f (flags AND NOT O_NONBLOCK) s1) (\<lambda>r s2.
         if r = - 1 then die (Some ''set flags'') (errno s2) s2 else Ret () s2))"

definition mk_nonblocking :: "int \<Rightarrow> state \<Rightarrow> unit result" where
  "mk_nonblocking f s =
     bnd (syscall s) (\<lambda>flags s1.
       if flags = - 1 then die (Some ''get flags'') (errno s1) s1
       else bnd (sys_setfl f (flags OR O_NONBLOCK) s1) (\<lambda>r s2.
         if r = - 1 then die (Some ''set flags'') (errno s2) s2 else Ret () s2))"

definition blocking :: "state \<Rightarrow> int \<Rightarrow> bool" where
  "blocking s f = (case oflags s f of Some v \<Rightarrow> v AND O_NONBLOCK = 0 | None \<Rightarrow> False)"

definition nonblocking :: "state \<Rightarrow> int \<Rightarrow> bool" where
  "nonblocking s f = (case oflags s f of Some v \<Rightarrow> v AND O_NONBLOCK \<noteq> 0 | None \<Rightarrow> False)"

section \<open>Accepting clients: \<open>check_for_new_clients\<close>\<close>

definition SUN_PATH_SIZE :: nat where "SUN_PATH_SIZE = 108"

text \<open>\<open>mk_sockaddr\<close> copies at most \<open>sizeof(addr.sun_path) - 1\<close> characters of
  \<open>SOCKFILE\<close>.\<close>

definition mk_sockaddr :: "state \<Rightarrow> string option" where
  "mk_sockaddr s = map_option (take (SUN_PATH_SIZE - 1)) (SOCKFILE s)"

definition umask :: "int \<Rightarrow> state \<Rightarrow> int \<times> state" where
  "umask m s = (umask_v s, s\<lparr>umask_v := m\<rparr>)"

text \<open>The block "first time through": it creates the listening socket.\<close>

definition listen_setup :: "state \<Rightarrow> unit result" where
  "listen_setup s =
     (let addr = mk_sockaddr s;
          s1 = atexit A_rm_sockfile (rm_sockfile s)
      in bnd (syscall s1) (\<lambda>v s2.
           let s3 = emit (Socket v) (s2\<lparr>src_fd := v\<rparr>) in
           if v < 0 then die (Some ''socket'') (errno s3) s3
           else
             let (mask, s4) = (if world s3 then umask 0 s3 else (0, s3)) in
             bnd (syscall s4) (\<lambda>b s5.
               let s6 = emit (Bind (src_fd s5) addr b) s5 in
               if b \<noteq> 0 then die (Some ''bind'') (errno s6) s6
               else
                 let s7 = (if world s6 then snd (umask mask s6) else s6) in
                 bnd (syscall s7) (\<lambda>l s8.
                   let s9 = emit (Listen (src_fd s8) 10 l) s8 in
                   if l \<noteq> 0 then die (Some ''listen'') (errno s9) s9 else Ret () s9))))"

text \<open>The end of the pass: a connection beyond \<open>MAXCLIENT\<close> is closed, any other is
  appended to the registry (\<open>fd[cnt++] = client_fd\<close>).\<close>

definition admit :: "int \<Rightarrow> state \<Rightarrow> state" where
  "admit client_fd s =
     (if MAXCLIENT = cnt s then emit (Close client_fd) s
      else s\<lparr>fd := (fd s)[cnt s := client_fd], cnt := cnt s + 1\<rparr>)"

text \<open>One pass from the label \<open>accept_client\<close> to the next \<open>goto\<close> or to the
  \<open>return\<close>: the result is \<open>True\<close> for \<open>goto accept_client\<close> and \<open>False\<close> for the normal
  exit point.\<close>

definition accept_round :: "state \<Rightarrow> bool result" where
  "accept_round s =
     bnd (syscall s) (\<lambda>client_fd s0.
       let s1 = emit (Accept (src_fd s0) client_fd) s0 in
       if client_fd = - 1 \<and> errno s1 = EWOULDBLOCK then Ret False s1
       else if client_fd = - 1 \<and> errno s1 = EINTR then Ret True s1
       else if client_fd = - 1 then die (Some ''accept'') (errno s1) s1
       else
         bnd (mk_nonblocking (src_fd s1) s1) (\<lambda>_ s2.
         bnd (mk_blocking client_fd s2) (\<lambda>_ s3.
           Ret True (admit client_fd s3))))"

lemma bnd_Ret_iff:
  "bnd m f = Ret y t \<longleftrightarrow> (\<exists>x s. m = Ret x s \<and> f x s = Ret y t)"
  by (cases m) auto

lemma bnd_Halt_iff:
  "bnd m f = Halt e t \<longleftrightarrow> m = Halt e t \<or> (\<exists>x s. m = Ret x s \<and> f x s = Halt e t)"
  by (cases m) auto

lemma die_Halt: "\<exists>t. die m e s = Halt (Exited e) t"
  by (simp add: die_def exit_proc_def Let_def)

lemma die_not_Ret [simp]: "die m e s \<noteq> Ret x t"
  by (simp add: die_def exit_proc_def Let_def)

lemma die_not_Stuck [simp]: "die m e s \<noteq> Stuck"
  by (simp add: die_def exit_proc_def Let_def)

lemma sys_setfl_script:
  "sys_setfl f v s = Ret r s' \<Longrightarrow> length (script s') < length (script s)"
  by (auto simp: sys_setfl_def emit_def bnd_Ret_iff dest: syscall_script split: if_splits)

lemma mk_blocking_script:
  "mk_blocking f s = Ret u s' \<Longrightarrow> length (script s') < length (script s)"
  by (fastforce simp: mk_blocking_def bnd_Ret_iff dest: syscall_script sys_setfl_script
      split: if_splits)

lemma mk_nonblocking_script:
  "mk_nonblocking f s = Ret u s' \<Longrightarrow> length (script s') < length (script s)"
  by (fastforce simp: mk_nonblocking_def bnd_Ret_iff dest: syscall_script sys_setfl_script
      split: if_splits)

lemma accept_round_script:
  "accept_round s = Ret b s' \<Longrightarrow> length (script s') < length (script s)"
  by (fastforce simp: accept_round_def bnd_Ret_iff emit_def Let_def admit_def
      dest: syscall_script mk_blocking_script mk_nonblocking_script split: if_splits)

function accept_client :: "state \<Rightarrow> unit result" where
  "accept_client s =
     (case accept_round s of
        Stuck \<Rightarrow> Stuck
      | Halt e s' \<Rightarrow> Halt e s'
      | Ret again s' \<Rightarrow> if again then accept_client s' else Ret () s')"
  by pat_completeness auto
termination
  by (relation "measure (\<lambda>s. length (script s))") (auto dest: accept_round_script)

declare accept_client.simps [simp del]

definition check_for_new_clients :: "state \<Rightarrow> unit result" where
  "check_for_new_clients s =
     bnd (if src_fd s = 0 then listen_setup s else Ret () s) (\<lambda>_ s1.
     bnd (if cnt s1 = 0 then mk_blocking (src_fd s1) s1 else Ret () s1) (\<lambda>_ s2.
     accept_client s2))"

section \<open>The producer: \<open>reopen_src\<close>, \<open>open_src\<close>, \<open>read_buf\<close>\<close>

text \<open>The handler of \<open>SIGHUP\<close>.\<close>

definition reopen_src :: "int \<Rightarrow> state \<Rightarrow> state" where
  "reopen_src sg s = (if src s \<noteq> None then s\<lparr>reopen := True\<rparr> else s)"

text \<open>The loop of \<open>open_src\<close> that joins \<open>argv\<close> with single spaces into \<open>cp\<close>; \<open>print\<close> is
  \<open>vasprintf\<close>, whose failure to allocate is not modelled.\<close>

fun join_args :: "nat \<Rightarrow> string option \<Rightarrow> string list \<Rightarrow> string option" where
  "join_args i cp [] = cp"
| "join_args i cp (a # as) =
     join_args (i + 1)
       (Some ((if i \<noteq> 0 then (case cp of None \<Rightarrow> [] | Some c \<Rightarrow> c) else [])
              @ (if i \<noteq> 0 then '' '' else []) @ a)) as"

text \<open>\<open>popen(cp, "r")\<close>: a failed call returns \<open>NULL\<close>; the child inherits the environment
  of the process as it is at the call.\<close>

definition sys_popen :: "string option \<Rightarrow> state \<Rightarrow> (int option) result" where
  "sys_popen cp s =
     bnd (syscall s) (\<lambda>h s'.
       Ret (if h = - 1 then None else Some h) (emit (Popen cp (environ s') h) s'))"

definition open_src :: "string list \<Rightarrow> state \<Rightarrow> unit result" where
  "open_src argv s =
     (let s1 = (if reopen s \<or> cnt s = 0 then close_src s else s) in
      if src s1 \<noteq> None \<or> cnt s1 = 0 then Ret () s1
      else
        bnd (sys_popen (join_args 0 None argv) s1) (\<lambda>h s2.
          let s3 = s2\<lparr>src := h\<rparr> in
          if src s3 = None then die (case argv of [] \<Rightarrow> None | a # _ \<Rightarrow> Some a) EBADF s3
          else Ret () s3))"

text \<open>\<open>fread(buffer, bufsz, 1, src)\<close>: \<open>Data d\<close> transfers the bytes \<open>d\<close> (at most
  \<open>bufsz\<close> of them) into the buffer and returns one item when they fill it, none otherwise,
  \<open>errno\<close> untouched (as at the end of the stream); \<open>Fail e\<close> returns no item and sets
  \<open>errno\<close>.\<close>

definition sys_fread :: "state \<Rightarrow> int result" where
  "sys_fread s =
     (case script s of
        [] \<Rightarrow> Stuck
      | Ok v # rs \<Rightarrow> Ret v (emit (Fread (case src s of None \<Rightarrow> 0 | Some h \<Rightarrow> h) v) (s\<lparr>script := rs\<rparr>))
      | Fail e # rs \<Rightarrow>
          Ret 0 (emit (Fread (case src s of None \<Rightarrow> 0 | Some h \<Rightarrow> h) 0) (s\<lparr>script := rs, errno := e\<rparr>))
      | Data d # rs \<Rightarrow>
          (let d' = take (nat (bufsz s)) d;
               b = (case buffer s of None \<Rightarrow> [] | Some b \<Rightarrow> b);
               r = (if int (length d) \<ge> bufsz s then 1 else 0)
           in Ret r (emit (Fread (case src s of None \<Rightarrow> 0 | Some h \<Rightarrow> h) r)
                (s\<lparr>script := rs, buffer := Some (d' @ drop (length d') b)\<rparr>))))"

lemma sys_fread_script:
  "sys_fread s = Ret v s' \<Longrightarrow> length (script s') < length (script s)"
  by (auto simp: sys_fread_def emit_def Let_def split: list.splits sysret.splits)

text \<open>\<open>do err = fread(...); while ( err < 1 && ( errno == EINTR || errno == EAGAIN ) );\<close>\<close>

function fread_loop :: "state \<Rightarrow> int result" where
  "fread_loop s =
     (case sys_fread s of
        Stuck \<Rightarrow> Stuck
      | Halt e s' \<Rightarrow> Halt e s'
      | Ret err s' \<Rightarrow>
          if err < 1 \<and> (errno s' = EINTR \<or> errno s' = EAGAIN) then fread_loop s'
          else Ret err s')"
  by pat_completeness auto
termination
  by (relation "measure (\<lambda>s. length (script s))") (auto dest: sys_fread_script)

declare fread_loop.simps [simp del]

text \<open>The choice of the buffer size, at the first call. The value of a successful \<open>fstat\<close>
  is the \<open>st_blksize\<close> it stores; the block \<open>malloc\<close> returns is taken as zeroed. \<open>bufsz\<close> is
  an \<open>int\<close>: the \<open>long\<close> values of \<open>sysconf\<close> and \<open>st_blksize\<close> are converted when they are
  stored, and compared as they are.\<close>

definition alloc_buffer :: "state \<Rightarrow> unit result" where
  "alloc_buffer s =
     bnd (syscall s) (\<lambda>pg s0.
       let s1 = s0\<lparr>bufsz := int32 pg\<rparr> in
       if bufsz s1 = - 1 then die (Some ''sysconf'') (errno s1) s1
       else
         bnd (syscall s1) (\<lambda>st_blksize s2.
           if st_blksize = - 1 then die (Some ''stat'') (errno s2) s2
           else
             let s3 = (if st_blksize > bufsz s2 then s2\<lparr>bufsz := int32 st_blksize\<rparr> else s2) in
             if bufsz s3 \<le> 0 then die (Some ''bufsz'') EINVAL s3
             else
               bnd (syscall s3) (\<lambda>m s4.
                 if m = - 1 then die (Some ''malloc'') (errno s4) s4
                 else Ret () (s4\<lparr>buffer := Some (replicate (nat (bufsz s4)) (CHR 0x00))\<rparr>))))"

definition read_buf :: "state \<Rightarrow> int result" where
  "read_buf s =
     (if src s = None then Halt Aborted s
      else
        bnd (if buffer s = None then alloc_buffer s else Ret () s) (\<lambda>_ s1.
        bnd (fread_loop s1) (\<lambda>err s2.
          if err \<noteq> 1 then die (Some ''fread'') (errno s2) s2
          else Ret (if err = 1 then 1 else 0) s2)))"

section \<open>The server loop\<close>

text \<open>The body of the \<open>do ... while ( cnt )\<close> loop of \<open>main\<close>.\<close>

definition server_iter :: "string list \<Rightarrow> state \<Rightarrow> unit result" where
  "server_iter argv s =
     bnd (check_for_new_clients s) (\<lambda>_ s1.
     bnd (open_src argv s1) (\<lambda>_ s2.
     bnd (read_buf s2) (\<lambda>r s3.
       if r \<noteq> 0 then write_buf s3 else Ret () s3)))"

lemma write_all_script:
  "write_all i off nr s = Ret v s' \<Longrightarrow> length (script s') \<le> length (script s)"
proof (induction i off nr s rule: write_all.induct)
  case (1 i off nr s)
  show ?case
  proof (cases "nr = 0")
    case True
    with "1.prems" show ?thesis by (simp add: write_all.simps)
  next
    case False
    note nz = this
    show ?thesis
    proof (cases "sys_write (fd s ! i) off nr s")
      case Stuck
      with nz "1.prems" show ?thesis by (simp add: write_all.simps)
    next
      case (Halt e t)
      with nz "1.prems" show ?thesis by (simp add: write_all.simps)
    next
      case (Ret nw t)
      have "length (script t) < length (script s)"
        using Ret by (rule sys_write_script)
      then show ?thesis
        using nz Ret "1.prems" "1.IH"(1)[OF nz Ret] "1.IH"(2)[OF nz Ret]
        by (auto simp: write_all.simps[of i off nr s] split: if_splits)
    qed
  qed
qed

lemma write_loop_script:
  "write_loop i s = Ret u s' \<Longrightarrow> length (script s') \<le> length (script s)"
proof (induction i s rule: write_loop.induct)
  case (1 i s)
  show ?case
  proof (cases "i < cnt s")
    case False
    with "1.prems" show ?thesis by (simp add: write_loop.simps)
  next
    case True
    note lt = this
    show ?thesis
    proof (cases "write_all i 0 (bufsz s) s")
      case Stuck
      with lt "1.prems" show ?thesis by (simp add: write_loop.simps)
    next
      case (Halt e t)
      with lt "1.prems" show ?thesis by (simp add: write_loop.simps)
    next
      case (Ret nr t)
      have le: "length (script t) \<le> length (script s)"
        using Ret by (rule write_all_script)
      have dc: "script (drop_client i t) = script t"
        by (simp add: drop_client_def Let_def emit_def)
      show ?thesis
      proof (cases "nr = 0")
        case True
        then show ?thesis
          using lt Ret "1.prems" "1.IH"(1)[OF lt Ret] le
          by (simp add: write_loop.simps[of i s])
      next
        case False
        then show ?thesis
          using lt Ret "1.prems" "1.IH"(2)[OF lt Ret] le dc
          by (simp add: write_loop.simps[of i s])
      qed
    qed
  qed
qed

lemma accept_client_script:
  "accept_client s = Ret u s' \<Longrightarrow> length (script s') < length (script s)"
proof (induction s rule: accept_client.induct)
  case (1 s)
  show ?case
  proof (cases "accept_round s")
    case Stuck
    with "1.prems" show ?thesis by (simp add: accept_client.simps)
  next
    case (Halt e t)
    with "1.prems" show ?thesis by (simp add: accept_client.simps)
  next
    case (Ret again t)
    have lt: "length (script t) < length (script s)"
      using Ret by (rule accept_round_script)
    show ?thesis
    proof (cases again)
      case True
      then show ?thesis
        using Ret "1.prems" "1.IH"[OF Ret] lt by (simp add: accept_client.simps[of s])
    next
      case False
      then show ?thesis
        using Ret "1.prems" lt by (simp add: accept_client.simps[of s])
    qed
  qed
qed

lemma rm_sockfile_script [simp]: "script (rm_sockfile s) = script s"
  by (simp add: rm_sockfile_def emit_def)

lemma listen_setup_script:
  "listen_setup s = Ret u s' \<Longrightarrow> length (script s') \<le> length (script s)"
  by (fastforce simp: listen_setup_def Let_def bnd_Ret_iff emit_def atexit_def umask_def
      dest!: syscall_script split: if_splits prod.splits)

lemma check_for_new_clients_script:
  "check_for_new_clients s = Ret u s' \<Longrightarrow> length (script s') < length (script s)"
  by (fastforce simp: check_for_new_clients_def bnd_Ret_iff
      dest!: listen_setup_script mk_blocking_script accept_client_script split: if_splits)

lemma close_src_script [simp]: "script (close_src s) = script s"
  by (simp add: close_src_def signal_def emit_def split: option.splits)

lemma open_src_script:
  "open_src argv s = Ret u s' \<Longrightarrow> length (script s') \<le> length (script s)"
  by (fastforce simp: open_src_def Let_def bnd_Ret_iff sys_popen_def emit_def
      dest!: syscall_script split: if_splits)

lemma fread_loop_script:
  "fread_loop s = Ret v s' \<Longrightarrow> length (script s') < length (script s)"
proof (induction s rule: fread_loop.induct)
  case (1 s)
  show ?case
  proof (cases "sys_fread s")
    case Stuck
    with "1.prems" show ?thesis by (simp add: fread_loop.simps)
  next
    case (Halt e t)
    with "1.prems" show ?thesis by (simp add: fread_loop.simps)
  next
    case (Ret err t)
    have lt: "length (script t) < length (script s)"
      using Ret by (rule sys_fread_script)
    show ?thesis
    proof (cases "err < 1 \<and> (errno t = EINTR \<or> errno t = EAGAIN)")
      case True
      then show ?thesis
        using Ret "1.prems" "1.IH"[OF Ret] lt by (simp add: fread_loop.simps[of s])
    next
      case False
      then show ?thesis
        using Ret "1.prems" lt by (auto simp: fread_loop.simps[of s])
    qed
  qed
qed

lemma alloc_buffer_script:
  "alloc_buffer s = Ret u s' \<Longrightarrow> length (script s') \<le> length (script s)"
  by (fastforce simp: alloc_buffer_def Let_def bnd_Ret_iff
      dest!: syscall_script split: if_splits)

lemma read_buf_script:
  "read_buf s = Ret v s' \<Longrightarrow> length (script s') < length (script s)"
  by (fastforce simp: read_buf_def bnd_Ret_iff
      dest!: alloc_buffer_script fread_loop_script split: if_splits)

lemma server_iter_script:
  "server_iter argv s = Ret u s' \<Longrightarrow> length (script s') < length (script s)"
  by (fastforce simp: server_iter_def bnd_Ret_iff write_buf_def
      dest!: check_for_new_clients_script open_src_script read_buf_script write_loop_script
      split: if_splits)

text \<open>\<open>do { ... } while ( cnt ); die("",0);\<close>\<close>

function server_loop :: "string list \<Rightarrow> state \<Rightarrow> unit result" where
  "server_loop argv s =
     (case server_iter argv s of
        Stuck \<Rightarrow> Stuck
      | Halt e s' \<Rightarrow> Halt e s'
      | Ret _ s' \<Rightarrow> if cnt s' \<noteq> 0 then server_loop argv s' else die (Some '''') 0 s')"
  by pat_completeness auto
termination
  by (relation "measure (\<lambda>(argv, s). length (script s))") (auto dest: server_iter_script)

declare server_loop.simps [simp del]

section \<open>The other modes and \<open>main\<close>\<close>

text \<open>The C library's \<open>atoi\<close> and \<open>"%d"\<close>. \<open>atoi\<close> is \<open>(int) strtol(str, NULL, 10)\<close>: the
  value of the digits, kept within the range of \<open>long\<close> and then converted to \<open>int\<close>.\<close>

fun atoi_digits :: "int \<Rightarrow> string \<Rightarrow> int" where
  "atoi_digits acc [] = acc"
| "atoi_digits acc (c # cs) =
     (let n = (of_char c :: nat) in
      if 48 \<le> n \<and> n \<le> 57 then atoi_digits (acc * 10 + (int n - 48)) cs else acc)"

definition strtol :: "string \<Rightarrow> int" where
  "strtol str =
     (case dropWhile (\<lambda>c. c = CHR '' '' \<or> (9 \<le> (of_char c :: nat) \<and> (of_char c :: nat) \<le> 13)) str of
        [] \<Rightarrow> 0
      | c # cs \<Rightarrow>
          max LONG_MIN (min LONG_MAX
            (if c = CHR ''-'' then - atoi_digits 0 cs
             else if c = CHR ''+'' then atoi_digits 0 cs
             else atoi_digits 0 (c # cs))))"

definition atoi :: "string \<Rightarrow> int" where
  "atoi str = int32 (strtol str)"

function dec_nat :: "nat \<Rightarrow> string" where
  "dec_nat n = (if n < 10 then [char_of (48 + n)] else dec_nat (n div 10) @ [char_of (48 + n mod 10)])"
  by pat_completeness auto
termination
  by (relation "measure id") auto

declare dec_nat.simps [simp del]

definition dec_int :: "int \<Rightarrow> string" where
  "dec_int i = (if i < 0 then CHR ''-'' # dec_nat (nat (- i)) else dec_nat (nat i))"

text \<open>\<open>setenv(name, value, overwrite)\<close>: with \<open>overwrite = 0\<close> a variable that is already in
  the environment keeps its value.\<close>

definition setenv :: "string \<Rightarrow> string \<Rightarrow> int \<Rightarrow> state \<Rightarrow> state" where
  "setenv name v overwrite s =
     (if overwrite = 0 \<and> map_of (environ s) name \<noteq> None then s
      else s\<lparr>environ := (name, v) # filter (\<lambda>p. fst p \<noteq> name) (environ s)\<rparr>)"

text \<open>\<open>fscanf(fp, "%s", cs)\<close> and \<open>fscanf(fp, "%d", &pid)\<close>: the number of items converted,
  and the item. \<open>Data d\<close> is the word read by \<open>"%s"\<close>; \<open>Ok v\<close> is the number read by
  \<open>"%d"\<close>.\<close>

definition sys_fscanf_s :: "state \<Rightarrow> (int \<times> string) result" where
  "sys_fscanf_s s =
     (case script s of
        [] \<Rightarrow> Stuck
      | Data d # rs \<Rightarrow> Ret (1, d) (s\<lparr>script := rs\<rparr>)
      | Ok v # rs \<Rightarrow> Ret (v, []) (s\<lparr>script := rs\<rparr>)
      | Fail e # rs \<Rightarrow> Ret (- 1, []) (s\<lparr>script := rs, errno := e\<rparr>))"

definition sys_fscanf_d :: "state \<Rightarrow> (int \<times> int) result" where
  "sys_fscanf_d s =
     (case script s of
        [] \<Rightarrow> Stuck
      | Ok v # rs \<Rightarrow> Ret (1, v) (s\<lparr>script := rs\<rparr>)
      | Data d # rs \<Rightarrow> Ret (0, 0) (s\<lparr>script := rs\<rparr>)
      | Fail e # rs \<Rightarrow> Ret (- 1, 0) (s\<lparr>script := rs, errno := e\<rparr>))"

definition sys_kill :: "int \<Rightarrow> int \<Rightarrow> state \<Rightarrow> int result" where
  "sys_kill p sg s = bnd (syscall s) (\<lambda>r s'. Ret r (emit (Kill p sg r) s'))"

definition wrt_pidfile :: "state \<Rightarrow> unit result" where
  "wrt_pidfile s =
     bnd (syscall s) (\<lambda>fp s1.
       if fp = - 1 then die (Some ''fopen PIDFILE'') (errno s1) s1
       else Ret () (emit (WritePid (PIDFILE s1) (pid s1)) (atexit A_rm_pidfile s1)))"

definition rd_pidfile :: "state \<Rightarrow> int result" where
  "rd_pidfile s =
     bnd (syscall s) (\<lambda>fp s1.
       if fp = - 1 then die (Some ''fopen PIDFILE'') (errno s1) s1
       else
         bnd (sys_fscanf_d s1) (\<lambda>(n, p) s2.
           if n \<noteq> 1 then die (Some ''error reading pidfile'') EINVAL s2
           else if p \<le> 0 then die (Some ''invalid pid (pid <= 0)'') EINVAL s2
           else
             bnd (sys_kill p 0 s2) (\<lambda>k s3.
               if k \<noteq> 0 then die (Some ''invalid pid (kill(pid,0))'') EINVAL s3
               else Ret p s3)))"

definition reopen_server :: "state \<Rightarrow> unit result" where
  "reopen_server s =
     bnd (rd_pidfile s) (\<lambda>p s1.
     bnd (sys_kill p SIGHUP s1) (\<lambda>k s2.
       if k \<noteq> 0 then die (Some ''cannot signal server process'') EIO s2 else Ret () s2))"

definition usage :: "state \<Rightarrow> 'a result" where
  "usage s = die None EINVAL s"

definition default_client_argv :: "string list" where
  "default_client_argv = [''cat'']"

text \<open>Client mode. A successful \<open>execvp\<close> does not return.\<close>

definition client :: "string list \<Rightarrow> state \<Rightarrow> unit result" where
  "client argv0 s =
     (let addr = mk_sockaddr s;
          argv = (if length argv0 = 0 then default_client_argv else argv0)
      in bnd (syscall s) (\<lambda>f t1.
           let s1 = emit (Socket f) t1 in
           if f < 0 then die (Some ''socket'') (errno s1) s1
           else
             bnd (syscall s1) (\<lambda>c t2.
               let s2 = emit (Connect f addr c) t2 in
               if c \<noteq> 0 then die (Some ''connect'') (errno s2) s2
               else
                 bnd (syscall (emit (Close 0) s2)) (\<lambda>d t3.
                   let s3 = emit (Dup2 f 0 d) t3 in
                   if d = - 1 then die (Some ''dup2'') EIO s3
                   else
                     bnd (syscall (emit (Close f) s3)) (\<lambda>x t4.
                       let s4 = emit (Execvp argv) t4 in
                       if x = - 1 then die (Some ''execvp'') (errno s4) s4
                       else Halt Execed s4)))))"

record options =
  opt_client :: bool
  opt_dryrun :: bool
  opt_restart :: bool

text \<open>The \<open>getopt\<close> loop, over what \<open>getopt\<close> returns call after call: the option character
  and \<open>optarg\<close>. Any character outside \<open>"dwcrt:n:"\<close> (\<open>getopt\<close> returns \<open>?\<close> for an
  option it does not know) takes the \<open>default\<close> branch.\<close>

fun getopt_loop :: "(char \<times> string) list \<Rightarrow> options \<Rightarrow> state \<Rightarrow> options result" where
  "getopt_loop [] os s = Ret os s"
| "getopt_loop ((opt, optarg) # rest) os s =
     (if opt = CHR ''w'' then getopt_loop rest os (s\<lparr>world := True\<rparr>)
      else if opt = CHR ''d'' then getopt_loop rest (os\<lparr>opt_dryrun := True\<rparr>) s
      else if opt = CHR ''c'' then getopt_loop rest (os\<lparr>opt_client := True\<rparr>) s
      else if opt = CHR ''r'' then getopt_loop rest (os\<lparr>opt_restart := True\<rparr>) s
      else if opt = CHR ''t'' then getopt_loop rest os (s\<lparr>src_kill := atoi optarg\<rparr>)
      else if opt = CHR ''n'' then getopt_loop rest os (s\<lparr>tmpbasename := Some optarg\<rparr>)
      else usage s)"

text \<open>The default instance name, from the check sum of the working directory's path.\<close>

definition default_name :: "state \<Rightarrow> unit result" where
  "default_name s =
     bnd (sys_popen (Some ''realpath . | cksum /dev/stdin'') s) (\<lambda>CS s1.
       case CS of
         None \<Rightarrow> die (Some ''popen/tmpbasename'') (errno s1) s1
       | Some h \<Rightarrow>
           bnd (sys_fscanf_s s1) (\<lambda>(n, cs) s2.
             if n \<noteq> 1 then die (Some ''popen/fscanf'') 1 s2
             else Ret () ((emit (Pclose h) s2)\<lparr>tmpbasename := Some cs\<rparr>)))"

definition file_name :: "string \<Rightarrow> string \<Rightarrow> string" where
  "file_name base ext = TMPDIR @ ''/delivery.'' @ base @ ext"

definition set_names :: "state \<Rightarrow> state" where
  "set_names s =
     (let base = (case tmpbasename s of None \<Rightarrow> ''(null)'' | Some n \<Rightarrow> n) in
      s\<lparr>PIDFILE := Some (file_name base ''.pid''),
        SOCKFILE := Some (file_name base ''.sock''),
        LOCKFILE := Some (file_name base ''.lock'')\<rparr>)"

text \<open>The server process once it holds the lock: the marker in the environment, the signal
  handlers, the PID file and the loop.\<close>

definition server_run :: "string list \<Rightarrow> state \<Rightarrow> unit result" where
  "server_run argv s =
     (let s3 = setenv DELIVERYPID (dec_int (pid s)) 0 s;
          s4 = signal SIGPIPE SIG_IGN (signal SIGCHLD H_sig_die (signal SIGKILL H_sig_die
                 (signal SIGINT H_sig_die (signal SIGTERM H_sig_die
                   (signal SIGHUP H_reopen_src s3)))))
      in bnd (wrt_pidfile s4) (\<lambda>_ s5. server_loop argv s5))"

text \<open>The server process, from the lock file to the end of \<open>main\<close>.\<close>

definition server :: "string list \<Rightarrow> state \<Rightarrow> unit result" where
  "server argv s =
     (let s0 = s\<lparr>LOCKFILE :=
                  Some (file_name (case tmpbasename s of None \<Rightarrow> ''(null)'' | Some n \<Rightarrow> n) ''.lock'')\<rparr>
      in bnd (syscall s0) (\<lambda>lfd t1.
           let s1 = emit (OpenLock (LOCKFILE t1) lfd) t1 in
           if lfd = - 1 then exit_proc 1 s1
           else
             bnd (syscall s1) (\<lambda>fl t2.
               let s2 = emit (Flock lfd fl) t2 in
               if fl \<noteq> 0 then exit_proc 1 s2
               else server_run argv s2)))"

text \<open>The start of \<open>main\<close>: the options and the file names.\<close>

definition prologue :: "(char \<times> string) list \<Rightarrow> state \<Rightarrow> options result" where
  "prologue opts s =
     bnd (getopt_loop opts \<lparr>opt_client = False, opt_dryrun = False, opt_restart = False\<rparr> s) (\<lambda>os s1.
     bnd (if tmpbasename s1 = None then default_name s1 else Ret () s1) (\<lambda>_ s2.
       Ret os (set_names s2)))"

definition main :: "(char \<times> string) list \<Rightarrow> string list \<Rightarrow> state \<Rightarrow> unit result" where
  "main opts argv s =
     bnd (prologue opts s) (\<lambda>os s3.
       if opt_dryrun os then exit_proc 0 s3
       else
         bnd (if opt_restart os then reopen_server s3 else Ret () s3) (\<lambda>_ s4.
         bnd (if opt_client os then client argv s4 else Ret () s4) (\<lambda>_ s5.
           if opt_restart os then die None 0 s5
           else if length argv = 0 then die (Some ''no arguments'') 1 s5
           else server argv s5)))"

text \<open>The process at its start: the static data zeroed, no handler, nothing registered with
  \<open>atexit\<close>; its process identifier, its environment and the script are given. The file
  creation mask is the customary \<open>022\<close>.\<close>

definition init_state :: "int \<Rightarrow> (string \<times> string) list \<Rightarrow> sysret list \<Rightarrow> state" where
  "init_state p env scr =
     \<lparr>src = None, src_fd = 0, src_kill = 0, fd = replicate MAXCLIENT 0, cnt = 0, reopen = False,
      buffer = None, bufsz = 0, errno = 0, world = False, tmpbasename = None, PIDFILE = None,
      SOCKFILE = None, LOCKFILE = None, pid = p, environ = env, umask_v = 18,
      handlers = (\<lambda>_. SIG_DFL), atexit_fns = [], oflags = Map.empty, script = scr, trace = []\<rparr>"

section \<open>Notions used to state the properties\<close>

text \<open>A step changes nothing but what the script, \<open>errno\<close> and the trace record.\<close>

definition only_io :: "state \<Rightarrow> state \<Rightarrow> bool" where
  "only_io s s' \<longleftrightarrow> (\<exists>sc e tr. s' = s\<lparr>script := sc, errno := e, trace := tr\<rparr>)"

text \<open>The events \<open>die\<close> adds to the trace, in order: the listening socket is closed and its
  file unlinked, the PID file unlinked, the message printed, the producer closed, the clients
  closed from the last to the first, and then the functions registered with \<open>atexit\<close> run.\<close>

definition atexit_events :: "state \<Rightarrow> event list" where
  "atexit_events s =
     map (\<lambda>f. case f of A_rm_pidfile \<Rightarrow> Unlink (PIDFILE s) | A_rm_sockfile \<Rightarrow> Unlink (SOCKFILE s))
       (atexit_fns s)"

definition die_events :: "string option \<Rightarrow> int \<Rightarrow> state \<Rightarrow> event list" where
  "die_events message e s =
     (if src_fd s \<noteq> 0 then [Close (src_fd s)] else [])
     @ [Unlink (SOCKFILE s), Unlink (PIDFILE s)]
     @ (if message \<noteq> None then [DieMsg message e] else [])
     @ (case src s of None \<Rightarrow> [] | Some h \<Rightarrow> [Pclose h])
     @ map Close (rev (registry s))
     @ atexit_events s"

text \<open>Spawns and closes of the producer in a trace. A \<open>popen\<close> that returned \<open>NULL\<close> spawned
  nothing. \<open>track\<close> follows the producer through the events, from closed or open, and fails
  at a spawn while it is open and at a close while it is closed.\<close>

fun is_spawn :: "event \<Rightarrow> bool" where
  "is_spawn (Popen c env h) = (h \<noteq> - 1)"
| "is_spawn _ = False"

fun is_pclose :: "event \<Rightarrow> bool" where
  "is_pclose (Pclose h) = True"
| "is_pclose _ = False"

fun is_close :: "event \<Rightarrow> bool" where
  "is_close (Close f) = True"
| "is_close _ = False"

definition spawns :: "event list \<Rightarrow> nat" where
  "spawns evs = length (filter is_spawn evs)"

fun track :: "bool \<Rightarrow> event list \<Rightarrow> bool option" where
  "track opn [] = Some opn"
| "track opn (Popen c env h # es) =
     (if h = - 1 then track opn es else if opn then None else track True es)"
| "track opn (Pclose h # es) = (if opn then track False es else None)"
| "track opn (ev # es) = track opn es"

text \<open>What happens to the source manager between two of its steps: a client is admitted, the
  client at an index is dropped, a restart request (\<open>SIGHUP\<close>) is delivered.\<close>

datatype change = Joins int | Leaves nat | Restart int

fun apply_change :: "change \<Rightarrow> state \<Rightarrow> state" where
  "apply_change (Joins c) s = admit c s"
| "apply_change (Leaves i) s = (if i < cnt s then drop_client i s else s)"
| "apply_change (Restart sg) s = reopen_src sg s"

fun manager_run :: "string list \<Rightarrow> change list list \<Rightarrow> state \<Rightarrow> unit result" where
  "manager_run argv [] s = Ret () s"
| "manager_run argv (cs # rounds) s =
     bnd (open_src argv (fold apply_change cs s)) (\<lambda>_ s'. manager_run argv rounds s')"

text \<open>The number of spawns the specification asks for: one for each step that finds the
  registry non-empty after the step before left it empty, and one for each step that finds a
  restart request pending and the registry non-empty.\<close>

fun spec_spawns :: "string list \<Rightarrow> change list list \<Rightarrow> state \<Rightarrow> nat" where
  "spec_spawns argv [] s = 0"
| "spec_spawns argv (cs # rounds) s =
     (let t = fold apply_change cs s in
      (if cnt s = 0 \<and> cnt t \<noteq> 0 then 1 else 0)
      + (if reopen t \<and> cnt t \<noteq> 0 then 1 else 0)
      + (case open_src argv t of Ret _ s' \<Rightarrow> spec_spawns argv rounds s' | _ \<Rightarrow> 0))"

text \<open>The state of the source manager between two steps: no request pending, and the
  producer open exactly when there are clients.\<close>

definition settled :: "state \<Rightarrow> bool" where
  "settled s \<longleftrightarrow> \<not> reopen s \<and> (src s \<noteq> None \<longleftrightarrow> cnt s \<noteq> 0)"

text \<open>The mode of the listening socket agrees with the registry.\<close>

definition listen_mode_ok :: "state \<Rightarrow> bool" where
  "listen_mode_ok s \<longleftrightarrow>
     (if cnt s = 0 then blocking s (src_fd s) else nonblocking s (src_fd s))"

text \<open>The environment a spawn hands to its child holds the marker with the value \<open>v\<close>.\<close>

fun marked :: "string \<Rightarrow> event \<Rightarrow> bool" where
  "marked v (Popen c env h) = (map_of env DELIVERYPID = Some v)"
| "marked v _ = True"

text \<open>States and runs that the properties below are tried on. In \<open>pass_state\<close> three clients
  are connected and the buffer holds four bytes; the first client takes them in one write, the
  write to the second fails with \<open>EPIPE\<close> (32), and the third client takes the buffer in two
  pieces around an interrupted call.\<close>

definition pass_state :: state where
  "pass_state =
     (init_state 100 [] [Ok 4, Fail 32, Ok 2, Fail 4, Ok 2])\<lparr>fd := [5, 6, 7] @ replicate 1021 0,
        cnt := 3, bufsz := 4, buffer := Some ''abcd''\<rparr>"

text \<open>A run of the source manager from the start of the server: a client joins; a second
  joins and two restart requests arrive; both clients leave.\<close>

definition manager_rounds :: "change list list" where
  "manager_rounds = [[Joins 5], [Joins 6, Restart 1, Restart 1], [Leaves 0, Leaves 0]]"

definition manager_state :: state where
  "manager_state = init_state 100 [] [Ok 50, Ok 51]"

text \<open>Two clients connected and the producer open, before a restart request.\<close>

definition restart_state :: state where
  "restart_state =
     (init_state 100 [] [Ok 51])\<lparr>fd := [5, 6] @ replicate 1022 0, cnt := 2, src := Some 50\<rparr>"

text \<open>The server at the top of its loop, run with \<open>-n tuner\<close>, and a script in which the
  listening socket is created (descriptor 3), one client is accepted (descriptor 4), the next
  \<open>accept\<close> would block, the producer is spawned (handle 50), the buffer is four bytes, and
  the producer's output is at its end three times in a row; \<open>later\<close> is what follows.\<close>

definition eof_state :: "sysret list \<Rightarrow> state" where
  "eof_state later =
     set_names ((init_state 100 []
       ([Ok 3, Ok 0, Ok 0, Ok 2, Ok 0, Ok 4, Ok 2, Ok 0, Ok 2, Ok 0, Fail 11, Ok 50, Ok 4, Ok 4, Ok 1]
        @ [Data [], Data [], Data []] @ later))\<lparr>tmpbasename := Some ''tuner''\<rparr>)"

text \<open>The events of a trace that do not carry the marker value \<open>v\<close>: the spawns whose
  environment lacks it or holds another value. A result keeps the marker when its state, if
  it has one, has the unmarked events \<open>u\<close> of the start and no other and, when the step
  returned, the environment \<open>env\<close> and the process identifier \<open>p\<close> of the start.\<close>

definition unmarked :: "string \<Rightarrow> event list \<Rightarrow> event list" where
  "unmarked v tr = filter (\<lambda>ev. \<not> marked v ev) tr"

definition keeps ::
  "string \<Rightarrow> event list \<Rightarrow> (string \<times> string) list \<Rightarrow> int \<Rightarrow> 'a result \<Rightarrow> bool" where
  "keeps v u env p r =
     (case r of
        Stuck \<Rightarrow> True
      | Halt e t \<Rightarrow> unmarked v (trace t) = u
      | Ret x t \<Rightarrow> unmarked v (trace t) = u \<and> environ t = env \<and> pid t = p)"

text \<open>A server started with \<open>_DELIVERY_PID=77\<close> already in its environment, as one started
  by the producer of another server is: it takes the lock, writes its PID file, accepts a
  client, spawns the producer, and then \<open>sysconf\<close> fails.\<close>

definition nested_run :: "unit result" where
  "nested_run =
     main [(CHR ''n'', ''tuner'')] [''sh'', ''encode.sh'']
       (init_state 100 [(''_DELIVERY_PID'', ''77'')]
          [Ok 3, Ok 0, Ok 1, Ok 4, Ok 0, Ok 0, Ok 2, Ok 0, Ok 5, Ok 2, Ok 0, Ok 2, Ok 0, Fail 11,
           Ok 50, Fail 12])"

text \<open>The same server, after the start of \<open>main\<close>, without the variable in its
  environment.\<close>

definition marker_state :: state where
  "marker_state =
     set_names ((init_state 100 []
        [Ok 3, Ok 0, Ok 1, Ok 4, Ok 0, Ok 0, Ok 2, Ok 0, Ok 5, Ok 2, Ok 0, Ok 2, Ok 0, Fail 11,
         Ok 50, Fail 12])\<lparr>tmpbasename := Some ''tuner''\<rparr>)"

text \<open>A result whose state, if it has one, has fewer than \<open>n\<close> script entries left.\<close>

definition below :: "nat \<Rightarrow> 'a result \<Rightarrow> bool" where
  "below n r =
     (case r of
        Stuck \<Rightarrow> True
      | Halt e t \<Rightarrow> length (script t) < n
      | Ret x t \<Rightarrow> length (script t) < n)"

text \<open>A call that returns a descriptor returns one that is not open: \<open>socket\<close> does not return
  0, the standard input, and \<open>accept\<close> does not return the listening socket itself. \<open>fresh\<close>
  says so of an event.\<close>

fun fresh :: "event \<Rightarrow> bool" where
  "fresh (Socket v) = (v \<noteq> 0)"
| "fresh (Accept l c) = (c \<noteq> l)"
| "fresh _ = True"

text \<open>Between two calls of \<open>check_for_new_clients\<close>: when there are clients, the listening
  socket exists and is non-blocking.\<close>

definition acceptor_inv :: "state \<Rightarrow> bool" where
  "acceptor_inv s \<longleftrightarrow> (cnt s \<noteq> 0 \<longrightarrow> src_fd s \<noteq> 0 \<and> nonblocking s (src_fd s))"

text \<open>The states in which \<open>check_for_new_clients\<close>, called in the state \<open>s\<close>, calls
  \<open>accept\<close>: the state at the label \<open>accept_client\<close> when it is first reached, and the state
  after each pass that ends with \<open>goto accept_client\<close>.\<close>

inductive accept_at :: "state \<Rightarrow> state \<Rightarrow> bool" where
  first: "(if src_fd s = 0 then listen_setup s else Ret () s) = Ret () s1 \<Longrightarrow>
          (if cnt s1 = 0 then mk_blocking (src_fd s1) s1 else Ret () s1) = Ret () s2 \<Longrightarrow>
          accept_at s s2"
| again: "accept_at s t \<Longrightarrow> accept_round t = Ret True t' \<Longrightarrow> accept_at s t'"

text \<open>What holds at each of these states: the mode of the listening socket agrees with the
  registry, and the registry is the one of the start followed by clients that are blocking.\<close>

definition acc_inv :: "state \<Rightarrow> state \<Rightarrow> bool" where
  "acc_inv s t \<longleftrightarrow>
     listen_mode_ok t \<and> src_fd t \<noteq> 0 \<and> length (fd t) = MAXCLIENT \<and> cnt t \<le> MAXCLIENT
     \<and> (\<exists>new. registry t = registry s @ new \<and> (\<forall>c\<in>set new. blocking t c \<and> c \<noteq> src_fd t))"

text \<open>The trace \<open>tr'\<close> is \<open>tr\<close> followed by more events, and by events that are all fresh.\<close>

definition extends :: "event list \<Rightarrow> event list \<Rightarrow> bool" where
  "extends tr tr' \<longleftrightarrow> (\<exists>evs. tr' = tr @ evs)"

definition fresh_ext :: "event list \<Rightarrow> event list \<Rightarrow> bool" where
  "fresh_ext tr tr' \<longleftrightarrow> (\<exists>evs. tr' = tr @ evs \<and> (\<forall>ev\<in>set evs. fresh ev))"

text \<open>The states in which the server loop, started in the state \<open>s\<close>, begins an iteration:
  \<open>s\<close> itself and the state after each iteration that returns with a client left
  (\<open>while ( cnt )\<close>).\<close>

inductive iter_at :: "string list \<Rightarrow> state \<Rightarrow> state \<Rightarrow> bool" where
  start: "iter_at argv s s"
| step: "iter_at argv s t \<Longrightarrow> server_iter argv t = Ret () t' \<Longrightarrow> cnt t' \<noteq> 0 \<Longrightarrow>
         iter_at argv s t'"

text \<open>A result that, if the step returns, has the descriptor flags \<open>fl\<close>, the listening socket
  \<open>f\<close>, an array \<open>fd\<close> of the size \<open>n\<close>, at most \<open>c\<close> clients, and a trace that begins with
  \<open>tr\<close>.\<close>

definition stays ::
  "(int \<Rightarrow> int option) \<Rightarrow> int \<Rightarrow> nat \<Rightarrow> nat \<Rightarrow> event list \<Rightarrow> 'a result \<Rightarrow> bool" where
  "stays fl f n c tr r =
     (case r of
        Ret x t \<Rightarrow> oflags t = fl \<and> src_fd t = f \<and> length (fd t) = n \<and> cnt t \<le> c
          \<and> extends tr (trace t)
      | _ \<Rightarrow> True)"

text \<open>A server that has taken its names and has no client yet. In \<open>arrival_state\<close> the
  listening socket is created (descriptor 3) and made blocking, one client is accepted
  (descriptor 4) and the next \<open>accept\<close> would block; the producer is spawned (handle 50), the
  buffer is four bytes, the producer writes four and the client takes them; in the next
  iteration a second client is accepted (descriptor 5) and the next \<open>accept\<close> would block. In
  \<open>last_client_state\<close> the first iteration is the same up to the write to the client, which
  fails with \<open>EPIPE\<close> (32).\<close>

definition arrival_state :: state where
  "arrival_state =
     set_names ((init_state 100 []
       [Ok 3, Ok 0, Ok 0, Ok 2, Ok 0, Ok 4, Ok 2, Ok 0, Ok 2, Ok 0, Fail 11,
        Ok 50, Ok 4, Ok 4, Ok 1, Data ''abcd'', Ok 4,
        Ok 5, Ok 2050, Ok 0, Ok 2, Ok 0, Fail 11])
       \<lparr>tmpbasename := Some ''tuner''\<rparr>)"

definition last_client_state :: state where
  "last_client_state =
     set_names ((init_state 100 []
       [Ok 3, Ok 0, Ok 0, Ok 2, Ok 0, Ok 4, Ok 2, Ok 0, Ok 2, Ok 0, Fail 11,
        Ok 50, Ok 4, Ok 4, Ok 1, Data ''abcd'', Fail 32])
       \<lparr>tmpbasename := Some ''tuner''\<rparr>)"

text \<open>What the answers of the script mean for the writes of \<open>nr\<close> bytes to one client:
  \<open>True\<close> when all the bytes go out, through partial writes and calls that a signal
  interrupts, \<open>False\<close> when a call fails with an \<open>errno\<close> other than \<open>EINTR\<close>; with it, the
  answers that are left. No result when the answers end before, or hold one that \<open>write\<close>
  does not give.\<close>

fun attempt :: "int \<Rightarrow> sysret list \<Rightarrow> (bool \<times> sysret list) option" where
  "attempt nr [] = (if nr = 0 then Some (True, []) else None)"
| "attempt nr (r # rs) =
     (if nr = 0 then Some (True, r # rs)
      else case r of
          Ok v \<Rightarrow> if 0 \<le> v then attempt (nr - v) rs else None
        | Fail e \<Rightarrow> if e = EINTR then attempt nr rs else Some (False, rs)
        | Data d \<Rightarrow> None)"

text \<open>The same for \<open>n\<close> clients one after the other, each handed \<open>b\<close> bytes.\<close>

fun outcomes :: "int \<Rightarrow> nat \<Rightarrow> sysret list \<Rightarrow> (bool list \<times> sysret list) option" where
  "outcomes b 0 scr = Some ([], scr)"
| "outcomes b (Suc n) scr =
     (case attempt b scr of
        None \<Rightarrow> None
      | Some (ok, r1) \<Rightarrow>
          (case outcomes b n r1 of
             None \<Rightarrow> None
           | Some (oks, r2) \<Rightarrow> Some (ok # oks, r2)))"

text \<open>The clients that a pass with these outcomes leaves in the registry, in their order, and
  the events of such a pass: for each client in turn the writes to it, followed by the \<open>close\<close>
  of its descriptor if they failed.\<close>

fun survivors :: "int list \<Rightarrow> bool list \<Rightarrow> int list" where
  "survivors (c # cs) (ok # oks) = (if ok then c # survivors cs oks else survivors cs oks)"
| "survivors _ _ = []"

fun pass_events :: "int list \<Rightarrow> bool list \<Rightarrow> event list list \<Rightarrow> event list" where
  "pass_events (c # cs) (ok # oks) (ws # wss) =
     ws @ (if ok then [] else [Close c]) @ pass_events cs oks wss"
| "pass_events _ _ _ = []"

text \<open>The events \<open>ws\<close> are writes to the client \<open>c\<close>, the first of them of the \<open>b\<close> bytes of the
  buffer from its first byte.\<close>

fun writes_to :: "int \<Rightarrow> event \<Rightarrow> bool" where
  "writes_to c (Write f off n w) = (f = c)"
| "writes_to c _ = False"

fun hands :: "int \<Rightarrow> int \<Rightarrow> event list \<Rightarrow> bool" where
  "hands b c (Write f off n w # ws) = (f = c \<and> off = 0 \<and> n = b \<and> list_all (writes_to c) ws)"
| "hands b c _ = False"

section \<open>The registry and the broadcast pass\<close>

lemma shift_down_length [simp]: "length (shift_down j c xs) = length xs"
  by (induction j c xs rule: shift_down.induct) (simp add: shift_down.simps)

lemma shift_down_nth:
  "0 < j \<Longrightarrow> c \<le> length xs \<Longrightarrow> k < length xs \<Longrightarrow>
   shift_down j c xs ! k = (if j - 1 \<le> k \<and> k < c - 1 then xs ! (k + 1) else xs ! k)"
proof (induction j c xs rule: shift_down.induct)
  case (1 j c xs)
  show ?case
  proof (cases "j < c")
    case True
    have "shift_down j c xs ! k = shift_down (j + 1) c (xs[j - 1 := xs ! j]) ! k"
      using True by (simp add: shift_down.simps[of j c xs])
    also have "\<dots> = (if j \<le> k \<and> k < c - 1 then (xs[j - 1 := xs ! j]) ! (k + 1)
                      else (xs[j - 1 := xs ! j]) ! k)"
      using "1.IH"[OF True] "1.prems" by simp
    also have "\<dots> = (if j - 1 \<le> k \<and> k < c - 1 then xs ! (k + 1) else xs ! k)"
      using "1.prems" True by (auto simp: nth_list_update)
    finally show ?thesis .
  next
    case False
    then show ?thesis using "1.prems" by (auto simp: shift_down.simps[of j c xs])
  qed
qed

lemma drop_client_registry:
  assumes "cnt s \<le> length (fd s)" and "i < cnt s"
  shows "registry (drop_client i s) = take i (registry s) @ drop (Suc i) (registry s)"
proof (rule nth_equalityI)
  show "length (registry (drop_client i s)) = length (take i (registry s) @ drop (Suc i) (registry s))"
    using assms by (auto simp: registry_def drop_client_def Let_def emit_def)
next
  fix k assume "k < length (registry (drop_client i s))"
  then have k: "k < cnt s - 1"
    using assms by (auto simp: registry_def drop_client_def Let_def emit_def)
  have "registry (drop_client i s) ! k = shift_down (i + 1) (cnt s) (fd s) ! k"
    using k assms by (auto simp: registry_def drop_client_def Let_def emit_def)
  also have "\<dots> = (if i \<le> k then fd s ! (k + 1) else fd s ! k)"
    using k assms by (simp add: shift_down_nth)
  also have "\<dots> = (take i (registry s) @ drop (Suc i) (registry s)) ! k"
    using k assms by (auto simp: registry_def nth_append min_def)
  finally show "registry (drop_client i s) ! k = (take i (registry s) @ drop (Suc i) (registry s)) ! k" .
qed

lemma drop_client_fields:
  "cnt (drop_client i s) = cnt s - 1"
  "trace (drop_client i s) = trace s @ [Close (fd s ! i)]"
  "buffer (drop_client i s) = buffer s"
  "bufsz (drop_client i s) = bufsz s"
  "script (drop_client i s) = script s"
  "length (fd (drop_client i s)) = length (fd s)"
  by (simp_all add: drop_client_def Let_def emit_def)

lemma only_io_refl [simp]: "only_io s s"
  unfolding only_io_def
  by (rule exI[of _ "script s"], rule exI[of _ "errno s"], rule exI[of _ "trace s"]) simp

lemma only_io_trans: "only_io s t \<Longrightarrow> only_io t u \<Longrightarrow> only_io s u"
  unfolding only_io_def by (elim exE) (simp, blast)

lemma only_io_script: "only_io s (s\<lparr>script := x\<rparr>)"
  unfolding only_io_def
  by (rule exI[of _ x], rule exI[of _ "errno s"], rule exI[of _ "trace s"]) simp

lemma only_io_errno: "only_io s (s\<lparr>errno := y\<rparr>)"
  unfolding only_io_def
  by (rule exI[of _ "script s"], rule exI[of _ y], rule exI[of _ "trace s"]) simp

lemma only_io_trace: "only_io s (s\<lparr>trace := z\<rparr>)"
  unfolding only_io_def
  by (rule exI[of _ "script s"], rule exI[of _ "errno s"], rule exI[of _ z]) simp

lemma only_io_upd:
  "only_io s t \<Longrightarrow> only_io s (t\<lparr>script := x\<rparr>)"
  "only_io s t \<Longrightarrow> only_io s (t\<lparr>errno := y\<rparr>)"
  "only_io s t \<Longrightarrow> only_io s (t\<lparr>trace := z\<rparr>)"
  by (erule only_io_trans, rule only_io_script only_io_errno only_io_trace)+

lemma only_io_fields:
  assumes "only_io s t"
  shows "fd t = fd s" "cnt t = cnt s" "buffer t = buffer s" "bufsz t = bufsz s" "src t = src s"
    "src_fd t = src_fd s" "reopen t = reopen s" "environ t = environ s" "pid t = pid s"
    "SOCKFILE t = SOCKFILE s" "PIDFILE t = PIDFILE s" "LOCKFILE t = LOCKFILE s"
    "atexit_fns t = atexit_fns s" "oflags t = oflags s" "handlers t = handlers s"
    "registry t = registry s" "world t = world s" "tmpbasename t = tmpbasename s"
  using assms unfolding only_io_def registry_def by auto

lemma syscall_only_io: "syscall s = Ret v t \<Longrightarrow> only_io s t"
  by (auto simp: syscall_def only_io_upd split: list.splits sysret.splits)

lemma sys_write_only_io: "sys_write f off nr s = Ret v t \<Longrightarrow> only_io s t"
  by (auto simp: sys_write_def bnd_Ret_iff emit_def only_io_upd dest!: syscall_only_io)

lemma sys_write_trace:
  "sys_write f off nr s = Ret v t \<Longrightarrow> trace t = trace s @ [Write f off nr v]"
  by (auto simp: sys_write_def bnd_Ret_iff emit_def syscall_def split: list.splits sysret.splits)

lemma sys_write_not_Halt [simp]: "sys_write f off nr s \<noteq> Halt e t"
  by (auto simp: sys_write_def bnd_Halt_iff syscall_def split: list.splits sysret.splits)

lemma write_all_run:
  "write_all i off nr s = Ret v t \<Longrightarrow>
   only_io s t \<and>
   (\<exists>evs. trace t = trace s @ evs \<and> (\<forall>ev\<in>set evs. \<exists>o' n' w. ev = Write (fd s ! i) o' n' w)
      \<and> (nr \<noteq> 0 \<longrightarrow> (\<exists>w. hd evs = Write (fd s ! i) off nr w) \<and> evs \<noteq> [])
      \<and> (v \<noteq> 0 \<longrightarrow> errno t \<noteq> EINTR \<and> (\<exists>o' n' w. last evs = Write (fd s ! i) o' n' w \<and> w < 0)))"
proof (induction i off nr s rule: write_all.induct)
  case (1 i off nr s)
  show ?case
  proof (cases "nr = 0")
    case True
    with "1.prems" show ?thesis by (auto simp: write_all.simps)
  next
    case False
    note nz = this
    show ?thesis
    proof (cases "sys_write (fd s ! i) off nr s")
      case Stuck
      with nz "1.prems" show ?thesis by (simp add: write_all.simps)
    next
      case (Halt e u)
      with nz "1.prems" show ?thesis by (simp add: write_all.simps)
    next
      case (Ret nw u)
      have io: "only_io s u" using Ret by (rule sys_write_only_io)
      have tr: "trace u = trace s @ [Write (fd s ! i) off nr nw]" using Ret by (rule sys_write_trace)
      have fdu: "fd u = fd s" using io by (rule only_io_fields)
      show ?thesis
      proof (cases "nw < 0")
        case True
        note neg = this
        show ?thesis
        proof (cases "errno u \<noteq> EINTR")
          case True
          with neg nz Ret "1.prems" have "t = u" "v = nr"
            by (auto simp: write_all.simps[of i off nr s])
          with io tr True neg show ?thesis by auto
        next
          case False
          with neg nz Ret "1.prems" have r: "write_all i off nr u = Ret v t"
            by (auto simp: write_all.simps[of i off nr s])
          from "1.IH"(1)[OF nz Ret neg _ r] False
          obtain evs where h: "only_io u t" "trace t = trace u @ evs"
            "\<forall>ev\<in>set evs. \<exists>o' n' w. ev = Write (fd u ! i) o' n' w"
            "evs \<noteq> []"
            "v \<noteq> 0 \<longrightarrow> errno t \<noteq> EINTR \<and> (\<exists>o' n' w. last evs = Write (fd u ! i) o' n' w \<and> w < 0)"
            using nz by auto
          have "trace t = trace s @ (Write (fd s ! i) off nr nw # evs)"
            using h(2) tr by simp
          moreover have "only_io s t" using io h(1) by (rule only_io_trans)
          ultimately show ?thesis using h(3,4,5) fdu
            by (intro conjI exI[of _ "Write (fd s ! i) off nr nw # evs"]) auto
        qed
      next
        case False
        note pos = this
        with nz Ret "1.prems" have r: "write_all i (off + nw) (nr - nw) u = Ret v t"
          by (auto simp: write_all.simps[of i off nr s])
        from "1.IH"(2)[OF nz Ret pos r]
        obtain evs where h: "only_io u t" "trace t = trace u @ evs"
          "\<forall>ev\<in>set evs. \<exists>o' n' w. ev = Write (fd u ! i) o' n' w"
          "v \<noteq> 0 \<longrightarrow> errno t \<noteq> EINTR \<and> (\<exists>o' n' w. last evs = Write (fd u ! i) o' n' w \<and> w < 0)"
          "nr - nw \<noteq> 0 \<longrightarrow> evs \<noteq> []"
          by auto
        have vz: "v \<noteq> 0 \<Longrightarrow> evs \<noteq> []"
        proof -
          assume "v \<noteq> 0"
          then have "nr - nw \<noteq> 0" using r by (auto simp: write_all.simps[of i "off + nw" "nr - nw" u])
          with h(5) show ?thesis by simp
        qed
        have "trace t = trace s @ (Write (fd s ! i) off nr nw # evs)"
          using h(2) tr by simp
        moreover have "only_io s t" using io h(1) by (rule only_io_trans)
        ultimately show ?thesis using h(3,4) fdu vz
          by (intro conjI exI[of _ "Write (fd s ! i) off nr nw # evs"]) auto
      qed
    qed
  qed
qed

lemma registry_length: "cnt s \<le> length (fd s) \<Longrightarrow> length (registry s) = cnt s"
  by (simp add: registry_def)

lemma write_loop_pass:
  "write_loop i s = Ret u t \<Longrightarrow> cnt s \<le> length (fd s) \<Longrightarrow> bufsz s \<noteq> 0 \<Longrightarrow>
   buffer t = buffer s \<and> bufsz t = bufsz s \<and>
   (\<exists>evs. trace t = trace s @ evs \<and>
      (\<forall>c\<in>set (drop i (registry s)). \<exists>w. Write c 0 (bufsz s) w \<in> set evs))"
proof (induction i s rule: write_loop.induct)
  case (1 i s)
  show ?case
  proof (cases "i < cnt s")
    case False
    with "1.prems" show ?thesis by (simp add: write_loop.simps registry_def)
  next
    case True
    note lt = this
    show ?thesis
    proof (cases "write_all i 0 (bufsz s) s")
      case Stuck
      with lt "1.prems" show ?thesis by (simp add: write_loop.simps)
    next
      case (Halt e x)
      with lt "1.prems" show ?thesis by (simp add: write_loop.simps)
    next
      case (Ret nr s1)
      from write_all_run[OF Ret] "1.prems"(3)
      obtain evs1 w where r1: "only_io s s1" "trace s1 = trace s @ evs1"
        "hd evs1 = Write (fd s ! i) 0 (bufsz s) w" "evs1 \<noteq> []"
        by auto
      note f = only_io_fields(1,2,3,4,16)[OF r1(1)]
      have first: "Write (registry s ! i) 0 (bufsz s) w \<in> set evs1"
        using r1(3,4) lt by (cases evs1) (auto simp: registry_def)
      have dr: "drop i (registry s) = registry s ! i # drop (Suc i) (registry s)"
        using lt "1.prems"(2) by (simp add: Cons_nth_drop_Suc registry_length)
      show ?thesis
      proof (cases "nr = 0")
        case True
        with lt Ret "1.prems" have r: "write_loop (i + 1) s1 = Ret u t"
          by (simp add: write_loop.simps[of i s])
        have "cnt s1 \<le> length (fd s1)" "bufsz s1 \<noteq> 0"
          using f "1.prems"(2,3) by simp_all
        from "1.IH"(1)[OF lt Ret True r this]
        obtain evs2 where h: "buffer t = buffer s" "bufsz t = bufsz s" "trace t = trace s1 @ evs2"
          "\<forall>c\<in>set (drop (Suc i) (registry s)). \<exists>w. Write c 0 (bufsz s) w \<in> set evs2"
          using f by auto
        have "trace t = trace s @ (evs1 @ evs2)" using h(3) r1(2) by simp
        moreover have "\<forall>c\<in>set (drop i (registry s)). \<exists>w. Write c 0 (bufsz s) w \<in> set (evs1 @ evs2)"
          using first h(4) unfolding dr by auto
        ultimately show ?thesis using h(1,2) by blast
      next
        case False
        with lt Ret "1.prems" have r: "write_loop i (drop_client i s1) = Ret u t"
          by (simp add: write_loop.simps[of i s])
        have inv1: "cnt s1 \<le> length (fd s1)" using f "1.prems"(2) by simp
        have lt1: "i < cnt s1" using f lt by simp
        have reg: "drop i (registry (drop_client i s1)) = drop (Suc i) (registry s)"
          using drop_client_registry[OF inv1 lt1] f lt "1.prems"(2)
          by (simp add: registry_length)
        have "cnt (drop_client i s1) \<le> length (fd (drop_client i s1))"
          "bufsz (drop_client i s1) \<noteq> 0"
          using f "1.prems"(2,3) by (simp_all add: drop_client_fields)
        from "1.IH"(2)[OF lt Ret False r this]
        obtain evs2 where h: "buffer t = buffer s" "bufsz t = bufsz s"
          "trace t = trace (drop_client i s1) @ evs2"
          "\<forall>c\<in>set (drop (Suc i) (registry s)). \<exists>w. Write c 0 (bufsz s) w \<in> set evs2"
          unfolding reg using f by (auto simp: drop_client_fields)
        have "trace t = trace s @ (evs1 @ Close (fd s1 ! i) # evs2)"
          using h(3) r1(2) by (simp add: drop_client_fields)
        moreover have "\<forall>c\<in>set (drop i (registry s)).
            \<exists>w. Write c 0 (bufsz s) w \<in> set (evs1 @ Close (fd s1 ! i) # evs2)"
          using first h(4) unfolding dr by auto
        ultimately show ?thesis using h(1,2) by blast
      qed
    qed
  qed
qed

lemma attempt_zero [simp]: "attempt 0 scr = Some (True, scr)"
  by (cases scr) simp_all

lemma attempt_write_all:
  "attempt nr (script s) = Some (ok, rest) \<Longrightarrow>
   \<exists>v t. write_all i off nr s = Ret v t \<and> (v = 0) = ok \<and> script t = rest"
proof (induction "script s" arbitrary: s off nr)
  case Nil
  from Nil.prems Nil.hyps[symmetric] have "nr = 0" "ok" "rest = script s"
    by (auto split: if_splits)
  then show ?case by (simp add: write_all.simps[of i off 0 s])
next
  case (Cons r rs)
  note sc = Cons.hyps(2)[symmetric]
  show ?case
  proof (cases "nr = 0")
    case True
    with Cons.prems sc have "ok" "rest = script s" by simp_all
    with True show ?thesis by (simp add: write_all.simps[of i off 0 s])
  next
    case False
    note nz = this
    show ?thesis
    proof (cases r)
      case (Ok v)
      define s' where "s' = emit (Write (fd s ! i) off nr v) (s\<lparr>script := rs\<rparr>)"
      have w: "sys_write (fd s ! i) off nr s = Ret v s'"
        using sc Ok by (simp add: sys_write_def syscall_def s'_def)
      have sc': "rs = script s'" by (simp add: s'_def emit_def)
      from Cons.prems nz Ok sc have pos: "0 \<le> v" and a: "attempt (nr - v) (script s') = Some (ok, rest)"
        unfolding sc'[symmetric] by (auto split: if_splits)
      from Cons.hyps(1)[OF sc' a, of "off + v"] obtain x t where
        "write_all i (off + v) (nr - v) s' = Ret x t" "(x = 0) = ok" "script t = rest"
        by blast
      then show ?thesis using nz w pos by (simp add: write_all.simps[of i off nr s])
    next
      case (Fail e)
      define s' where "s' = emit (Write (fd s ! i) off nr (- 1)) (s\<lparr>script := rs, errno := e\<rparr>)"
      have w: "sys_write (fd s ! i) off nr s = Ret (- 1) s'"
        using sc Fail by (simp add: sys_write_def syscall_def s'_def)
      have sc': "rs = script s'" and er: "errno s' = e" by (simp_all add: s'_def emit_def)
      show ?thesis
      proof (cases "e = EINTR")
        case True
        with Cons.prems nz Fail sc have a: "attempt nr (script s') = Some (ok, rest)"
          unfolding sc'[symmetric] by simp
        from Cons.hyps(1)[OF sc' a, of off] obtain x t where
          "write_all i off nr s' = Ret x t" "(x = 0) = ok" "script t = rest"
          by blast
        then show ?thesis using nz w er True by (simp add: write_all.simps[of i off nr s])
      next
        case False
        with Cons.prems nz Fail sc have "ok = False" "rest = rs" by simp_all
        then show ?thesis using nz w er False sc' by (simp add: write_all.simps[of i off nr s])
      qed
    next
      case (Data d)
      with Cons.prems nz sc show ?thesis by simp
    qed
  qed
qed

lemma outcomes_length: "outcomes b n scr = Some (oks, rest) \<Longrightarrow> length oks = n"
  by (induction n arbitrary: scr oks) (auto split: option.splits)

lemma outcomes_zero: "outcomes 0 n scr = Some (replicate n True, scr)"
  by (induction n) simp_all

lemma outcomes_failure:
  assumes "outcomes b n scr = Some (oks, rest)" and "k < n" and "\<not> oks ! k"
  shows "b \<noteq> 0"
proof
  assume "b = 0"
  with assms(1) have "oks = replicate n True" by (simp add: outcomes_zero)
  with assms(2,3) show False by simp
qed

lemma survivors_length: "length (survivors cs oks) \<le> length cs"
proof (induction cs arbitrary: oks)
  case Nil
  show ?case by simp
next
  case (Cons c cs)
  show ?case using Cons[of "tl oks"] by (cases oks) (auto simp: le_SucI)
qed

lemma survivors_less:
  "length oks = length cs \<Longrightarrow> k < length cs \<Longrightarrow> \<not> oks ! k \<Longrightarrow>
   length (survivors cs oks) < length cs"
proof (induction oks cs arbitrary: k rule: list_induct2)
  case Nil
  then show ?case by simp
next
  case (Cons ok oks c cs)
  show ?case
  proof (cases k)
    case 0
    with Cons.prems have "\<not> ok" by simp
    with survivors_length[of cs oks] show ?thesis by simp
  next
    case (Suc j)
    with Cons.prems have "j < length cs" "\<not> oks ! j" by simp_all
    from Cons.IH[OF this] show ?thesis by simp
  qed
qed

lemma survivors_all:
  "length oks = length cs \<Longrightarrow> \<forall>j<length cs. oks ! j \<Longrightarrow> survivors cs oks = cs"
proof (induction oks cs rule: list_induct2)
  case Nil
  then show ?case by simp
next
  case (Cons ok oks c cs)
  from Cons.prems have "(ok # oks) ! 0" by blast
  then have "ok" by simp
  moreover have "\<forall>j<length cs. oks ! j"
  proof (intro allI impI)
    fix j assume "j < length cs"
    with Cons.prems have "(ok # oks) ! Suc j" by auto
    then show "oks ! j" by simp
  qed
  ultimately show ?case using Cons.IH by simp
qed

lemma survivors_one:
  "length oks = length cs \<Longrightarrow> k < length cs \<Longrightarrow> \<not> oks ! k \<Longrightarrow>
   \<forall>j<length cs. j \<noteq> k \<longrightarrow> oks ! j \<Longrightarrow> survivors cs oks = take k cs @ drop (Suc k) cs"
proof (induction oks cs arbitrary: k rule: list_induct2)
  case Nil
  then show ?case by simp
next
  case (Cons ok oks c cs)
  have rest: "oks ! j" if "j < length cs" "Suc j \<noteq> k" for j
  proof -
    from that Cons.prems(3) have "(ok # oks) ! Suc j" by auto
    then show ?thesis by simp
  qed
  show ?case
  proof (cases k)
    case 0
    with rest have "\<forall>j<length cs. oks ! j" by simp
    with Cons.hyps have "survivors cs oks = cs" by (simp add: survivors_all)
    with 0 Cons.prems(2) show ?thesis by simp
  next
    case (Suc j)
    with Cons.prems(3) have "(ok # oks) ! 0" by (auto simp del: nth_Cons_0)
    then have ok: "ok" by simp
    have "\<forall>i<length cs. i \<noteq> j \<longrightarrow> oks ! i" using rest Suc by simp
    moreover have "j < length cs" "\<not> oks ! j" using Cons.prems(1,2) Suc by simp_all
    ultimately have "survivors cs oks = take j cs @ drop (Suc j) cs" using Cons.IH by blast
    with ok Suc show ?thesis by simp
  qed
qed

lemma write_all_hands:
  assumes "write_all i 0 b s = Ret v t" and "b \<noteq> 0"
  shows "\<exists>ws. trace t = trace s @ ws \<and> hands b (fd s ! i) ws \<and> only_io s t"
proof -
  from write_all_run[OF assms(1)] assms(2) obtain evs w where
    r: "only_io s t" "trace t = trace s @ evs"
    "\<forall>ev\<in>set evs. \<exists>o' n' w. ev = Write (fd s ! i) o' n' w"
    "hd evs = Write (fd s ! i) 0 b w" "evs \<noteq> []"
    by auto
  from r(4,5) obtain es where e: "evs = Write (fd s ! i) 0 b w # es" by (cases evs) auto
  with r(3) have "list_all (writes_to (fd s ! i)) es" by (auto simp: list_all_iff)
  with e have "hands b (fd s ! i) evs" by simp
  with r(1,2) show ?thesis by blast
qed

lemma outcomes_write_loop:
  "outcomes (bufsz s) n (script s) = Some (oks, rest) \<Longrightarrow> i + n = cnt s \<Longrightarrow>
   cnt s \<le> length (fd s) \<Longrightarrow> bufsz s \<noteq> 0 \<Longrightarrow>
   \<exists>t wss. write_loop i s = Ret () t
     \<and> registry t = take i (registry s) @ survivors (drop i (registry s)) oks
     \<and> cnt t = i + length (survivors (drop i (registry s)) oks)
     \<and> buffer t = buffer s \<and> bufsz t = bufsz s \<and> script t = rest
     \<and> trace t = trace s @ pass_events (drop i (registry s)) oks wss
     \<and> list_all2 (hands (bufsz s)) (drop i (registry s)) wss"
proof (induction n arbitrary: s i oks)
  case 0
  then have "write_loop i s = Ret () s" "oks = []" "rest = script s" "drop i (registry s) = []"
    "take i (registry s) = registry s"
    by (auto simp: write_loop.simps registry_def)
  then show ?case using 0(2) by (intro exI[of _ s] exI[of _ "[]"]) simp
next
  case (Suc n)
  from Suc.prems(2) have lt: "i < cnt s" by simp
  from Suc.prems(1) obtain ok r1 oks' where a: "attempt (bufsz s) (script s) = Some (ok, r1)"
    and o: "outcomes (bufsz s) n r1 = Some (oks', rest)" and oks: "oks = ok # oks'"
    by (auto split: option.splits)
  from attempt_write_all[OF a, of i 0] obtain v s1 where
    w: "write_all i 0 (bufsz s) s = Ret v s1" and v: "(v = 0) = ok" and sc1: "script s1 = r1"
    by blast
  from write_all_hands[OF w Suc.prems(4)] obtain ws where
    tr1: "trace s1 = trace s @ ws" and h: "hands (bufsz s) (fd s ! i) ws" and io: "only_io s s1"
    by blast
  note f = only_io_fields(1,2,3,4,16)[OF io]
  have fi: "fd s ! i = registry s ! i" using lt by (simp add: registry_def)
  have dr: "drop i (registry s) = registry s ! i # drop (Suc i) (registry s)"
    using lt Suc.prems(3) by (simp add: Cons_nth_drop_Suc registry_length)
  show ?case
  proof (cases ok)
    case True
    with v lt w have step: "write_loop i s = write_loop (Suc i) s1"
      by (simp add: write_loop.simps[of i s])
    have "outcomes (bufsz s1) n (script s1) = Some (oks', rest)" "Suc i + n = cnt s1"
      "cnt s1 \<le> length (fd s1)" "bufsz s1 \<noteq> 0"
      using o sc1 f Suc.prems(2,3,4) by simp_all
    from Suc.IH[OF this] obtain t wss where
      r: "write_loop (Suc i) s1 = Ret () t"
      "registry t = take (Suc i) (registry s) @ survivors (drop (Suc i) (registry s)) oks'"
      "cnt t = Suc i + length (survivors (drop (Suc i) (registry s)) oks')"
      "buffer t = buffer s" "bufsz t = bufsz s" "script t = rest"
      "trace t = trace s1 @ pass_events (drop (Suc i) (registry s)) oks' wss"
      "list_all2 (hands (bufsz s)) (drop (Suc i) (registry s)) wss"
      unfolding f by blast
    have tk: "take (Suc i) (registry s) = take i (registry s) @ [registry s ! i]"
      using lt Suc.prems(3) by (simp add: take_Suc_conv_app_nth registry_length)
    show ?thesis
      using step r True h unfolding oks dr tk tr1 fi
      by (intro exI[of _ t] exI[of _ "ws # wss"]) simp
  next
    case False
    define s2 where "s2 = drop_client i s1"
    from False v lt w have step: "write_loop i s = write_loop i s2"
      by (simp add: write_loop.simps[of i s] s2_def)
    have inv1: "cnt s1 \<le> length (fd s1)" and lt1: "i < cnt s1"
      using f lt Suc.prems(3) by simp_all
    have reg2: "registry s2 = take i (registry s) @ drop (Suc i) (registry s)"
      unfolding s2_def using drop_client_registry[OF inv1 lt1] f by simp
    have li: "length (take i (registry s)) = i"
      using lt Suc.prems(3) by (simp add: registry_length)
    have d2: "drop i (registry s2) = drop (Suc i) (registry s)"
      and t2: "take i (registry s2) = take i (registry s)"
      unfolding reg2 using li by simp_all
    have tr2: "trace s2 = trace s @ ws @ [Close (registry s ! i)]"
      unfolding s2_def using tr1 f fi by (simp add: drop_client_fields)
    have "outcomes (bufsz s2) n (script s2) = Some (oks', rest)" "i + n = cnt s2"
      "cnt s2 \<le> length (fd s2)" "bufsz s2 \<noteq> 0"
      unfolding s2_def using o sc1 f Suc.prems(2,3,4) by (simp_all add: drop_client_fields)
    from Suc.IH[OF this] obtain t wss where
      r: "write_loop i s2 = Ret () t"
      "registry t = take i (registry s) @ survivors (drop (Suc i) (registry s)) oks'"
      "cnt t = i + length (survivors (drop (Suc i) (registry s)) oks')"
      "buffer t = buffer s2" "bufsz t = bufsz s2" "script t = rest"
      "trace t = trace s2 @ pass_events (drop (Suc i) (registry s)) oks' wss"
      "list_all2 (hands (bufsz s2)) (drop (Suc i) (registry s)) wss"
      unfolding d2 t2 by blast
    have b2: "buffer s2 = buffer s" "bufsz s2 = bufsz s"
      unfolding s2_def using f by (simp_all add: drop_client_fields)
    show ?thesis
      using step r False h unfolding oks dr tr2 b2 fi
      by (intro exI[of _ t] exI[of _ "ws # wss"]) simp
  qed
qed

text \<open>C1. A pass of \<open>write_buf\<close> over a registry of any size, when the answers of \<open>write\<close> are
  such that the writes to the client at index \<open>k\<close> fail with an \<open>errno\<close> other than \<open>EINTR\<close>
  (\<open>oks\<close> tells for each client in turn whether the writes to it succeed): the pass returns;
  the registry afterwards holds the clients whose writes succeeded and no other, in the order
  they had, so that it is shorter; each client in turn, those behind a failed one too, is
  handed the same buffer from its first byte; the descriptor of a client is closed, right
  after the writes to it, exactly when they failed. When the client at \<open>k\<close> is the only one
  whose writes fail, the registry afterwards is the registry before without its entry \<open>k\<close>,
  and its size is one less.\<close>

theorem write_buf_drops_failed_client:
  assumes "cnt s \<le> length (fd s)"
    and "outcomes (bufsz s) (cnt s) (script s) = Some (oks, rest)"
    and "k < cnt s" and "\<not> oks ! k"
  shows "\<exists>t wss. write_buf s = Ret () t
    \<and> registry t = survivors (registry s) oks
    \<and> cnt t = length (survivors (registry s) oks) \<and> cnt t < cnt s
    \<and> buffer t = buffer s \<and> bufsz t = bufsz s \<and> script t = rest
    \<and> trace t = trace s @ pass_events (registry s) oks wss
    \<and> list_all2 (hands (bufsz s)) (registry s) wss
    \<and> ((\<forall>j<cnt s. j \<noteq> k \<longrightarrow> oks ! j) \<longrightarrow>
          registry t = take k (registry s) @ drop (Suc k) (registry s) \<and> cnt t = cnt s - 1)"
proof -
  have bz: "bufsz s \<noteq> 0" using assms(2,3,4) by (rule outcomes_failure)
  have lo: "length oks = length (registry s)"
    using outcomes_length[OF assms(2)] assms(1) by (simp add: registry_length)
  have lr: "length (registry s) = cnt s" using assms(1) by (rule registry_length)
  from outcomes_write_loop[OF assms(2) _ assms(1) bz, of 0] obtain t wss where
    r: "write_loop 0 s = Ret () t" "registry t = survivors (registry s) oks"
    "cnt t = length (survivors (registry s) oks)"
    "buffer t = buffer s" "bufsz t = bufsz s" "script t = rest"
    "trace t = trace s @ pass_events (registry s) oks wss"
    "list_all2 (hands (bufsz s)) (registry s) wss"
    by auto
  have less: "cnt t < cnt s"
    using survivors_less[OF lo, of k] assms(3,4) r(3) lr by simp
  have one: "registry t = take k (registry s) @ drop (Suc k) (registry s) \<and> cnt t = cnt s - 1"
    if "\<forall>j<cnt s. j \<noteq> k \<longrightarrow> oks ! j"
  proof -
    have "survivors (registry s) oks = take k (registry s) @ drop (Suc k) (registry s)"
      using lo assms(3,4) that lr by (intro survivors_one) simp_all
    then show ?thesis using r(2,3) lr assms(3) by simp
  qed
  from one have one': "(\<forall>j<cnt s. j \<noteq> k \<longrightarrow> oks ! j) \<longrightarrow>
      registry t = take k (registry s) @ drop (Suc k) (registry s) \<and> cnt t = cnt s - 1"
    by blast
  from r(1) have w: "write_buf s = Ret () t" by (simp add: write_buf_def)
  show ?thesis
    by (intro exI[of _ t] exI[of _ wss] conjI) (rule w r less one')+
qed

theorem write_buf_drops_failed_client_witness:
  "cnt pass_state \<le> length (fd pass_state)
   \<and> outcomes (bufsz pass_state) (cnt pass_state) (script pass_state) = Some ([True, False, True], [])
   \<and> 1 < cnt pass_state \<and> \<not> [True, False, True] ! 1
   \<and> cnt pass_state = 3 \<and> [True, False, True] ! 0 \<and> [True, False, True] ! 2
   \<and> (\<exists>t. write_buf pass_state = Ret () t
        \<and> registry t = take 1 (registry pass_state) @ drop (Suc 1) (registry pass_state)
        \<and> cnt t = cnt pass_state - 1)"
proof -
  have a: "cnt pass_state \<le> length (fd pass_state)" and c: "1 < cnt pass_state"
    and n: "cnt pass_state = 3"
    by (simp_all add: pass_state_def init_state_def)
  have b: "outcomes (bufsz pass_state) (cnt pass_state) (script pass_state)
      = Some ([True, False, True], [])"
    by (simp add: pass_state_def init_state_def numeral_3_eq_3 EINTR_def)
  have d: "\<not> [True, False, True] ! 1" by simp
  have e: "\<forall>j<cnt pass_state. j \<noteq> 1 \<longrightarrow> [True, False, True] ! j"
    unfolding n by (auto simp: less_Suc_eq numeral_3_eq_3)
  have g: "[True, False, True] ! 0" "[True, False, True] ! 2" by simp_all
  show ?thesis
    using a b c d e n g write_buf_drops_failed_client[OF a b c d] by blast
qed

lemma pass_state_run:
  "case write_buf pass_state of
     Ret u t \<Rightarrow> registry t = [5, 7] \<and> cnt t = 2 \<and>
       trace t = [Write 5 0 4 4, Write 6 0 4 (- 1), Close 6, Write 7 0 4 2, Write 7 2 2 (- 1),
                  Write 7 2 2 2]
   | _ \<Rightarrow> False"
  by code_simp

section \<open>The source manager\<close>

lemma track_append:
  "track opn (evs @ evs') = (case track opn evs of None \<Rightarrow> None | Some o' \<Rightarrow> track o' evs')"
  by (induction opn evs rule: track.induct) auto

lemma track_closes: "\<forall>ev\<in>set evs. is_close ev \<Longrightarrow> track opn evs = Some opn"
  by (induction opn evs rule: track.induct) auto

lemma spawns_append [simp]: "spawns (evs @ evs') = spawns evs + spawns evs'"
  by (simp add: spawns_def)

lemma spawns_closes: "\<forall>ev\<in>set evs. is_close ev \<Longrightarrow> spawns evs = 0"
  unfolding spawns_def by (induction evs) (auto elim: is_close.elims)

lemma apply_change_frame:
  "src (apply_change c s) = src s \<and> (reopen (apply_change c s) \<longrightarrow> reopen s \<or> src s \<noteq> None)
   \<and> (\<exists>evs. trace (apply_change c s) = trace s @ evs \<and> (\<forall>ev\<in>set evs. is_close ev))"
  by (cases c) (auto simp: admit_def emit_def drop_client_def Let_def reopen_src_def)

lemma changes_frame:
  "src (fold apply_change cs s) = src s
   \<and> (reopen (fold apply_change cs s) \<longrightarrow> reopen s \<or> src s \<noteq> None)
   \<and> (\<exists>evs. trace (fold apply_change cs s) = trace s @ evs \<and> (\<forall>ev\<in>set evs. is_close ev))"
proof (induction cs arbitrary: s)
  case Nil
  show ?case by simp
next
  case (Cons c cs)
  from apply_change_frame[of c s] obtain evs1 where a:
    "src (apply_change c s) = src s" "reopen (apply_change c s) \<longrightarrow> reopen s \<or> src s \<noteq> None"
    "trace (apply_change c s) = trace s @ evs1" "\<forall>ev\<in>set evs1. is_close ev"
    by blast
  from Cons.IH[of "apply_change c s"] obtain evs2 where b:
    "src (fold apply_change cs (apply_change c s)) = src (apply_change c s)"
    "reopen (fold apply_change cs (apply_change c s)) \<longrightarrow>
       reopen (apply_change c s) \<or> src (apply_change c s) \<noteq> None"
    "trace (fold apply_change cs (apply_change c s)) = trace (apply_change c s) @ evs2"
    "\<forall>ev\<in>set evs2. is_close ev"
    by blast
  have "trace (fold apply_change (c # cs) s) = trace s @ (evs1 @ evs2)"
    using a(3) b(3) by simp
  moreover have "\<forall>ev\<in>set (evs1 @ evs2). is_close ev" using a(4) b(4) by auto
  ultimately show ?case using a(1,2) b(1,2) by (simp del: append_assoc) blast
qed

text \<open>What one step of the source manager does, when it returns.\<close>

lemma open_src_step:
  assumes "open_src argv t = Ret u s'"
  shows "\<exists>evs. trace s' = trace t @ evs
     \<and> spawns evs = (if cnt t \<noteq> 0 \<and> (src t = None \<or> reopen t) then 1 else 0)
     \<and> track (src t \<noteq> None) evs = Some (src s' \<noteq> None)
     \<and> settled s' \<and> fd s' = fd t \<and> cnt s' = cnt t"
proof (cases "src t")
  case None
  show ?thesis
  proof (cases "cnt t = 0")
    case True
    with None assms show ?thesis
      by (auto simp: open_src_def close_src_def Let_def settled_def spawns_def)
  next
    case False
    with None assms show ?thesis
      by (auto simp: open_src_def close_src_def Let_def settled_def spawns_def sys_popen_def
          bnd_Ret_iff emit_def syscall_def split: if_splits list.splits sysret.splits)
  qed
next
  case (Some h)
  show ?thesis
  proof (cases "cnt t = 0")
    case True
    with Some assms show ?thesis
      by (auto simp: open_src_def close_src_def Let_def settled_def spawns_def signal_def emit_def
          split: if_splits)
  next
    case False
    with Some assms show ?thesis
      by (auto simp: open_src_def close_src_def Let_def settled_def spawns_def sys_popen_def
          bnd_Ret_iff emit_def syscall_def signal_def split: if_splits list.splits sysret.splits)
  qed
qed

text \<open>C2. Over any sequence of rounds, each a list of clients joining, clients leaving and
  restart requests followed by one step \<open>open_src\<close>, started between two steps (no request
  pending, the producer open exactly when there are clients): when the run returns, the
  number of spawns is the number of steps that found the registry non-empty after the step
  before had left it empty, plus the number of steps that found a restart request pending
  and the registry non-empty; no spawn happens while the producer is open (\<open>track\<close> does not
  fail); and at the end the producer is open exactly when the registry is non-empty.\<close>

theorem source_manager_spawns:
  assumes "settled s" and "manager_run argv rounds s = Ret () s'"
  shows "\<exists>evs. trace s' = trace s @ evs \<and> spawns evs = spec_spawns argv rounds s
    \<and> track (src s \<noteq> None) evs = Some (src s' \<noteq> None) \<and> settled s'"
  using assms
proof (induction rounds arbitrary: s)
  case Nil
  then show ?case by (simp add: spawns_def)
next
  case (Cons cs rounds)
  define t where "t = fold apply_change cs s"
  from Cons.prems(2) obtain s1 where
    st: "open_src argv t = Ret () s1" and rest: "manager_run argv rounds s1 = Ret () s'"
    by (auto simp: bnd_Ret_iff t_def)
  from changes_frame[of cs s] obtain e0 where c:
    "src t = src s" "reopen t \<longrightarrow> reopen s \<or> src s \<noteq> None"
    "trace t = trace s @ e0" "\<forall>ev\<in>set e0. is_close ev"
    unfolding t_def by blast
  from open_src_step[OF st] obtain e1 where o:
    "trace s1 = trace t @ e1"
    "spawns e1 = (if cnt t \<noteq> 0 \<and> (src t = None \<or> reopen t) then 1 else 0)"
    "track (src t \<noteq> None) e1 = Some (src s1 \<noteq> None)" "settled s1"
    by blast
  from Cons.IH[OF o(4) rest] obtain e2 where i:
    "trace s' = trace s1 @ e2" "spawns e2 = spec_spawns argv rounds s1"
    "track (src s1 \<noteq> None) e2 = Some (src s' \<noteq> None)" "settled s'"
    by blast
  have tr: "trace s' = trace s @ (e0 @ e1 @ e2)"
    using c(3) o(1) i(1) by simp
  have "spawns e1 = (if cnt s = 0 \<and> cnt t \<noteq> 0 then 1 else 0) + (if reopen t \<and> cnt t \<noteq> 0 then 1 else 0)"
    using o(2) c(1,2) Cons.prems(1) by (auto simp: settled_def)
  then have sp: "spawns (e0 @ e1 @ e2) = spec_spawns argv (cs # rounds) s"
    using i(2) st spawns_closes[OF c(4)] by (simp add: t_def[symmetric] Let_def)
  have tk: "track (src s \<noteq> None) (e0 @ e1 @ e2) = Some (src s' \<noteq> None)"
    using track_closes[OF c(4)] o(3) i(3) c(1) by (simp add: track_append)
  show ?case using tr sp tk i(4) by blast
qed

theorem source_manager_spawns_witness:
  "settled manager_state
   \<and> (\<exists>s'. manager_run [''sh'', ''encode.sh''] manager_rounds manager_state = Ret () s'
         \<and> (\<exists>evs. trace s' = trace manager_state @ evs
               \<and> spawns evs = spec_spawns [''sh'', ''encode.sh''] manager_rounds manager_state)
         \<and> settled s')"
proof -
  have a: "settled manager_state"
    by (simp add: settled_def manager_state_def init_state_def)
  have "case manager_run [''sh'', ''encode.sh''] manager_rounds manager_state of
          Ret u s' \<Rightarrow> True | _ \<Rightarrow> False"
    by code_simp
  then obtain s' where b: "manager_run [''sh'', ''encode.sh''] manager_rounds manager_state = Ret () s'"
    by (auto split: result.splits)
  show ?thesis
    using a b source_manager_spawns[OF a b] by blast
qed

lemma manager_run_example:
  "spec_spawns [''sh'', ''encode.sh''] manager_rounds manager_state = 2"
  "case manager_run [''sh'', ''encode.sh''] manager_rounds manager_state of
     Ret u s' \<Rightarrow> trace s' = [Popen (Some ''sh encode.sh'') [] 50, Pclose 50,
                   Popen (Some ''sh encode.sh'') [] 51, Close 5, Close 6, Pclose 51]
   | _ \<Rightarrow> False"
  by code_simp+

lemma reopen_src_twice: "reopen_src sg' (reopen_src sg s) = reopen_src sg s"
  by (simp add: reopen_src_def)

lemma fold_reopen_src: "fold reopen_src sgs (reopen_src sg s) = reopen_src sg s"
  by (induction sgs) (simp_all add: reopen_src_twice)

text \<open>What a step that finds a restart request does when \<open>popen\<close> succeeds.\<close>

lemma open_src_restart:
  assumes "src s = Some h" and "reopen s" and "cnt s \<noteq> 0"
    and "script s = Ok h' # rest" and "h' \<noteq> - 1"
  shows "\<exists>s'. open_src argv s = Ret () s'
    \<and> trace s' = trace s @ [Pclose h, Popen (join_args 0 None argv) (environ s) h']
    \<and> src s' = Some h' \<and> \<not> reopen s' \<and> script s' = rest
    \<and> fd s' = fd s \<and> cnt s' = cnt s \<and> registry s' = registry s \<and> oflags s' = oflags s"
  using assms
  by (simp add: open_src_def close_src_def Let_def sys_popen_def syscall_def emit_def signal_def
      registry_def)

text \<open>C5. Any number of restart requests after the first, delivered before the next step of
  the source manager, leave the state as the first request left it; so the step that follows
  is the same step, and with the producer open and clients connected it closes the producer
  once and spawns it once.\<close>

theorem restart_requests_coalesce:
  assumes "src s = Some h" and "cnt s \<noteq> 0" and "script s = Ok h' # rest" and "h' \<noteq> - 1"
  shows "fold reopen_src (sg # sgs) s = reopen_src sg s
    \<and> open_src argv (fold reopen_src (sg # sgs) s) = open_src argv (reopen_src sg s)
    \<and> (\<exists>s'. open_src argv (fold reopen_src (sg # sgs) s) = Ret () s'
          \<and> trace s' = trace s @ [Pclose h, Popen (join_args 0 None argv) (environ s) h']
          \<and> \<not> reopen s')"
proof -
  have a: "fold reopen_src (sg # sgs) s = reopen_src sg s"
    by (simp add: fold_reopen_src)
  have "src (reopen_src sg s) = Some h" "reopen (reopen_src sg s)" "cnt (reopen_src sg s) \<noteq> 0"
    "script (reopen_src sg s) = Ok h' # rest"
    using assms by (simp_all add: reopen_src_def)
  from open_src_restart[OF this assms(4), of argv] assms(1)
  have "\<exists>s'. open_src argv (reopen_src sg s) = Ret () s'
          \<and> trace s' = trace s @ [Pclose h, Popen (join_args 0 None argv) (environ s) h']
          \<and> \<not> reopen s'"
    by (auto simp: reopen_src_def)
  then show ?thesis unfolding a by simp
qed

theorem restart_requests_coalesce_witness:
  "src restart_state = Some 50 \<and> cnt restart_state \<noteq> 0 \<and> script restart_state = Ok 51 # []
   \<and> (51::int) \<noteq> - 1
   \<and> fold reopen_src [1, 1, 1] restart_state = reopen_src 1 restart_state
   \<and> (\<exists>s'. open_src [''sh''] (fold reopen_src [1, 1, 1] restart_state) = Ret () s'
         \<and> trace s' = trace restart_state
              @ [Pclose 50, Popen (join_args 0 None [''sh'']) (environ restart_state) 51])"
proof -
  have a: "src restart_state = Some 50" and b: "cnt restart_state \<noteq> 0"
    and c: "script restart_state = Ok 51 # []"
    by (simp_all add: restart_state_def init_state_def)
  have d: "(51::int) \<noteq> - 1" by simp
  show ?thesis
    using a b c d restart_requests_coalesce[OF a b c d, of 1 "[1, 1]" "[''sh'']"] by blast
qed

text \<open>C7. A step of the source manager that finds a restart request pending, the producer
  open and clients connected, and whose \<open>popen\<close> succeeds, adds two events to the trace, the
  close of the old producer and the spawn of the new one: it closes no descriptor and accepts
  none, and the array of clients, their number, the registry and the status flags of the
  descriptors are what they were.\<close>

theorem restart_keeps_clients:
  assumes "src s = Some h" and "reopen s" and "cnt s \<noteq> 0"
    and "script s = Ok h' # rest" and "h' \<noteq> - 1"
  shows "\<exists>s'. open_src argv s = Ret () s'
    \<and> trace s' = trace s @ [Pclose h, Popen (join_args 0 None argv) (environ s) h']
    \<and> src s' = Some h'
    \<and> fd s' = fd s \<and> cnt s' = cnt s \<and> registry s' = registry s \<and> oflags s' = oflags s"
  using open_src_restart[OF assms, of argv] by blast

theorem restart_keeps_clients_witness:
  "src (reopen_src 1 restart_state) = Some 50 \<and> reopen (reopen_src 1 restart_state)
   \<and> cnt (reopen_src 1 restart_state) \<noteq> 0 \<and> script (reopen_src 1 restart_state) = Ok 51 # []
   \<and> (51::int) \<noteq> - 1
   \<and> (\<exists>s'. open_src [''sh''] (reopen_src 1 restart_state) = Ret () s'
         \<and> registry s' = registry (reopen_src 1 restart_state))"
proof -
  have a: "src (reopen_src 1 restart_state) = Some 50" and b: "reopen (reopen_src 1 restart_state)"
    and c: "cnt (reopen_src 1 restart_state) \<noteq> 0"
    and d: "script (reopen_src 1 restart_state) = Ok 51 # []"
    by (simp_all add: restart_state_def init_state_def reopen_src_def)
  have e: "(51::int) \<noteq> - 1" by simp
  show ?thesis
    using a b c d e restart_keeps_clients[OF a b c d e, of "[''sh'']"] by blast
qed

section \<open>Leaving the process\<close>

lemma close_clients_run:
  "cnt s \<le> length (fd s) \<Longrightarrow>
   close_clients s = s\<lparr>cnt := 0, trace := trace s @ map Close (rev (registry s))\<rparr>"
proof (induction s rule: close_clients.induct)
  case (1 s)
  show ?case
  proof (cases "cnt s = 0")
    case True
    then show ?thesis by (simp add: close_clients.simps[of s] registry_def)
  next
    case False
    then obtain n where n: "cnt s = Suc n" by (cases "cnt s") auto
    let ?t = "emit (Close (fd s ! (cnt s - 1))) (s\<lparr>cnt := cnt s - 1\<rparr>)"
    have le: "cnt ?t \<le> length (fd ?t)" using "1.prems" by (simp add: emit_def)
    have tk: "rev (take (Suc n) (fd s)) = fd s ! n # rev (take n (fd s))"
      using "1.prems" n by (simp add: take_Suc_conv_app_nth)
    have "close_clients s = close_clients ?t"
      using False by (simp add: close_clients.simps[of s])
    also have "\<dots> = ?t\<lparr>cnt := 0, trace := trace ?t @ map Close (rev (registry ?t))\<rparr>"
      by (rule "1.IH"[OF False le])
    also have "\<dots> = s\<lparr>cnt := 0, trace := trace s @ map Close (rev (registry s))\<rparr>"
      using n tk by (simp add: emit_def registry_def)
    finally show ?thesis .
  qed
qed

lemma run_atexit_run:
  "src_fd s = 0 \<Longrightarrow> run_atexit fs s =
     s\<lparr>trace := trace s @ map (\<lambda>f. case f of A_rm_pidfile \<Rightarrow> Unlink (PIDFILE s)
                                          | A_rm_sockfile \<Rightarrow> Unlink (SOCKFILE s)) fs\<rparr>"
proof (induction fs s rule: run_atexit.induct)
  case (1 s)
  show ?case by simp
next
  case (2 fs s)
  have "src_fd (rm_pidfile s) = 0" using 2(2) by (simp add: rm_pidfile_def emit_def)
  from 2(1)[OF this] show ?case by (simp add: rm_pidfile_def emit_def)
next
  case (3 fs s)
  have "src_fd (rm_sockfile s) = 0" using 3(2) by (simp add: rm_sockfile_def emit_def)
  from 3(1)[OF this] 3(2) show ?case by (simp add: rm_sockfile_def emit_def)
qed

text \<open>What \<open>die\<close> does: it ends the process with the status it was given, after the events
  of \<open>die_events\<close>.\<close>

lemma die_run:
  assumes "cnt s \<le> length (fd s)"
  shows "\<exists>s'. die message e s = Halt (Exited e) s' \<and> trace s' = trace s @ die_events message e s
     \<and> src s' = None \<and> cnt s' = 0 \<and> src_fd s' = 0 \<and> script s' = script s"
proof -
  define s3 where
    "s3 = close_src (if message \<noteq> None then emit (DieMsg message e) (rm_pidfile (rm_sockfile s))
                     else rm_pidfile (rm_sockfile s))"
  define s4 where "s4 = close_clients s3"
  have c3: "cnt s3 \<le> length (fd s3)"
    using assms unfolding s3_def
    by (simp add: close_src_def rm_pidfile_def rm_sockfile_def emit_def signal_def split: option.splits)
  have s4: "s4 = s3\<lparr>cnt := 0, trace := trace s3 @ map Close (rev (registry s3))\<rparr>"
    unfolding s4_def by (rule close_clients_run[OF c3])
  have f3: "src_fd s3 = 0" "src s3 = None" "script s3 = script s" "registry s3 = registry s"
    "atexit_fns s3 = atexit_fns s" "PIDFILE s3 = PIDFILE s" "SOCKFILE s3 = SOCKFILE s"
    unfolding s3_def
    by (simp_all add: close_src_def rm_pidfile_def rm_sockfile_def emit_def signal_def registry_def
        split: option.splits)
  have t3: "trace s3 = trace s
      @ (if src_fd s \<noteq> 0 then [Close (src_fd s)] else [])
      @ [Unlink (SOCKFILE s), Unlink (PIDFILE s)]
      @ (if message \<noteq> None then [DieMsg message e] else [])
      @ (case src s of None \<Rightarrow> [] | Some h \<Rightarrow> [Pclose h])"
    unfolding s3_def
    by (simp add: close_src_def rm_pidfile_def rm_sockfile_def emit_def signal_def
        split: option.splits)
  have f4: "src_fd s4 = 0" using s4 f3 by simp
  have r: "run_atexit (atexit_fns s4) s4 =
      s4\<lparr>trace := trace s4 @ map (\<lambda>f. case f of A_rm_pidfile \<Rightarrow> Unlink (PIDFILE s4)
                                          | A_rm_sockfile \<Rightarrow> Unlink (SOCKFILE s4)) (atexit_fns s4)\<rparr>"
    by (rule run_atexit_run[OF f4])
  have d: "die message e s = Halt (Exited e) (run_atexit (atexit_fns s4) s4)"
    by (simp add: die_def exit_proc_def Let_def s4_def s3_def)
  have tr: "trace (run_atexit (atexit_fns s4) s4) = trace s @ die_events message e s"
    unfolding r using s4 f3 t3 by (simp add: die_events_def atexit_events_def)
  have rest: "src (run_atexit (atexit_fns s4) s4) = None" "cnt (run_atexit (atexit_fns s4) s4) = 0"
    "src_fd (run_atexit (atexit_fns s4) s4) = 0" "script (run_atexit (atexit_fns s4) s4) = script s"
    unfolding r using s4 f3 by simp_all
  show ?thesis using d tr rest by blast
qed

section \<open>Reading from the producer\<close>

lemma accept_client_errno:
  "accept_client s = Ret u s' \<Longrightarrow> errno s' = EWOULDBLOCK"
proof (induction s rule: accept_client.induct)
  case (1 s)
  show ?case
  proof (cases "accept_round s")
    case Stuck
    with "1.prems" show ?thesis by (simp add: accept_client.simps)
  next
    case (Halt e t)
    with "1.prems" show ?thesis by (simp add: accept_client.simps)
  next
    case (Ret again t)
    show ?thesis
    proof (cases again)
      case True
      then show ?thesis
        using Ret "1.prems" "1.IH"[OF Ret] by (simp add: accept_client.simps[of s])
    next
      case False
      with Ret "1.prems" have "t = s'" by (simp add: accept_client.simps[of s])
      moreover have "errno t = EWOULDBLOCK"
        using Ret False
        by (auto simp: accept_round_def bnd_Ret_iff Let_def emit_def split: if_splits)
      ultimately show ?thesis by simp
    qed
  qed
qed

text \<open>The accept loop returns at one place only, where \<open>errno\<close> is \<open>EWOULDBLOCK\<close>; neither
  \<open>open_src\<close> nor the choice of the buffer changes \<open>errno\<close> when it returns.\<close>

lemma check_for_new_clients_errno:
  "check_for_new_clients s = Ret u s' \<Longrightarrow> errno s' = EWOULDBLOCK"
  by (auto simp: check_for_new_clients_def bnd_Ret_iff dest: accept_client_errno)

lemma syscall_errno:
  "syscall s = Ret v s' \<Longrightarrow> v \<noteq> - 1 \<Longrightarrow> errno s' = errno s"
  by (auto simp: syscall_def split: list.splits sysret.splits)

lemma open_src_errno:
  "open_src argv s = Ret u s' \<Longrightarrow> errno s' = errno s"
  by (auto simp: open_src_def Let_def bnd_Ret_iff sys_popen_def emit_def close_src_def signal_def
      dest!: syscall_errno split: if_splits option.splits)

lemma int32_minus_one [simp]: "int32 (- 1) = - 1"
  by (simp add: int32_def)

lemma alloc_buffer_errno:
  "alloc_buffer s = Ret u s' \<Longrightarrow> errno s' = errno s"
  by (auto simp: alloc_buffer_def Let_def bnd_Ret_iff dest!: syscall_errno split: if_splits)

text \<open>An end of stream (\<open>fread\<close> returns no item and leaves \<open>errno\<close> alone) met while \<open>errno\<close>
  holds \<open>EAGAIN\<close> is followed by another \<open>fread\<close>, however often it comes.\<close>

lemma end_of_stream_retried:
  assumes "errno s = EAGAIN" and "src s = Some h" and "buffer s = Some b" and "0 < bufsz s"
    and "script s = replicate n (Data []) @ rest"
  shows "fread_loop s = fread_loop (s\<lparr>script := rest, trace := trace s @ replicate n (Fread h 0)\<rparr>)"
  using assms
proof (induction n arbitrary: s)
  case 0
  then have "rest = script s" by simp
  then show ?case by simp
next
  case (Suc n)
  let ?t = "s\<lparr>script := replicate n (Data []) @ rest, trace := trace s @ [Fread h 0]\<rparr>"
  have sf: "sys_fread s = Ret 0 ?t"
    using Suc.prems by (simp add: sys_fread_def emit_def Let_def)
  have "fread_loop s = fread_loop ?t"
    using sf Suc.prems(1) by (simp add: fread_loop.simps[of s])
  also have "\<dots> = fread_loop (?t\<lparr>script := rest, trace := trace ?t @ replicate n (Fread h 0)\<rparr>)"
    by (rule Suc.IH) (use Suc.prems in simp_all)
  also have "?t\<lparr>script := rest, trace := trace ?t @ replicate n (Fread h 0)\<rparr>
      = s\<lparr>script := rest, trace := trace s @ replicate (Suc n) (Fread h 0)\<rparr>"
    by (simp add: replicate_app_Cons_same)
  finally show ?case .
qed

lemma end_of_stream_never_fatal:
  assumes "errno s = EAGAIN" and "src s = Some h" and "buffer s = Some b" and "0 < bufsz s"
    and "script s = replicate n (Data [])"
  shows "read_buf s = Stuck"
proof -
  have "fread_loop s = fread_loop (s\<lparr>script := [], trace := trace s @ replicate n (Fread h 0)\<rparr>)"
    using end_of_stream_retried[OF assms(1-4), of n "[]"] assms(5) by simp
  also have "\<dots> = Stuck"
    by (simp add: fread_loop.simps sys_fread_def)
  finally show ?thesis using assms(2,3) by (auto simp: read_buf_def)
qed

text \<open>A read that does not fill the buffer and does not leave \<open>EINTR\<close> or \<open>EAGAIN\<close> in
  \<open>errno\<close> ends the process through \<open>die\<close>, with \<open>errno\<close> as the status.\<close>

lemma fread_loop_frame:
  "fread_loop s = Ret err t \<Longrightarrow>
   src t = src s \<and> src_fd t = src_fd s \<and> fd t = fd s \<and> cnt t = cnt s \<and> registry t = registry s
   \<and> SOCKFILE t = SOCKFILE s \<and> PIDFILE t = PIDFILE s \<and> atexit_fns t = atexit_fns s
   \<and> \<not> (err < 1 \<and> (errno t = EINTR \<or> errno t = EAGAIN))"
proof (induction s rule: fread_loop.induct)
  case (1 s)
  show ?case
  proof (cases "sys_fread s")
    case Stuck
    with "1.prems" show ?thesis by (simp add: fread_loop.simps)
  next
    case (Halt e u)
    with "1.prems" show ?thesis by (simp add: fread_loop.simps)
  next
    case (Ret e u)
    have fr: "src u = src s \<and> src_fd u = src_fd s \<and> fd u = fd s \<and> cnt u = cnt s
        \<and> registry u = registry s \<and> SOCKFILE u = SOCKFILE s \<and> PIDFILE u = PIDFILE s
        \<and> atexit_fns u = atexit_fns s"
      using Ret
      by (auto simp: sys_fread_def emit_def Let_def registry_def split: list.splits sysret.splits)
    show ?thesis
    proof (cases "e < 1 \<and> (errno u = EINTR \<or> errno u = EAGAIN)")
      case True
      with Ret "1.prems" have "fread_loop u = Ret err t" by (simp add: fread_loop.simps[of s])
      from "1.IH"[OF Ret True this] fr show ?thesis by simp
    next
      case False
      with Ret "1.prems" have "t = u" "err = e" by (auto simp: fread_loop.simps[of s])
      with fr False show ?thesis by simp
    qed
  qed
qed

lemma failed_read_is_fatal:
  assumes "cnt s \<le> length (fd s)" and "src s \<noteq> None" and "buffer s \<noteq> None"
    and "fread_loop s = Ret err s1" and "err \<noteq> 1"
  shows "\<exists>s'. read_buf s = Halt (Exited (errno s1)) s'
    \<and> trace s' = trace s1 @ die_events (Some ''fread'') (errno s1) s
    \<and> src s' = None \<and> cnt s' = 0 \<and> src_fd s' = 0"
proof -
  note f = fread_loop_frame[OF assms(4)]
  have c1: "cnt s1 \<le> length (fd s1)" using f assms(1) by simp
  have ev: "die_events (Some ''fread'') (errno s1) s1 = die_events (Some ''fread'') (errno s1) s"
    using f by (simp add: die_events_def atexit_events_def split: atexit_fn.splits)
  have "read_buf s = die (Some ''fread'') (errno s1) s1"
    using assms(2-5) by (auto simp: read_buf_def)
  with die_run[OF c1, of "Some ''fread''" "errno s1"] ev show ?thesis by auto
qed

text \<open>C3, at an input the server can receive: one client is connected, the producer has
  been spawned and its output is at its end. \<open>errno\<close> still holds the \<open>EWOULDBLOCK\<close> of the
  \<open>accept\<close> that ended \<open>check_for_new_clients\<close>, the reads that return no item leave it
  alone, and the loop of \<open>read_buf\<close> reads again: after three ends of stream the server has
  not left through \<open>die\<close>, it is waiting for the next \<open>fread\<close>; and when a full buffer
  follows, \<open>read_buf\<close> returns and the buffer is written to the client.\<close>

theorem end_of_stream_not_fatal:
  "(case server_iter [''sh'', ''encode.sh''] (eof_state []) of Stuck \<Rightarrow> True | _ \<Rightarrow> False)
   \<and> (case server_iter [''sh'', ''encode.sh''] (eof_state [Data ''abcd'', Ok 4]) of
         Ret u t \<Rightarrow>
           drop 9 (trace t) =
             [Popen (Some ''sh encode.sh'') [] 50, Fread 50 0, Fread 50 0, Fread 50 0, Fread 50 1,
              Write 4 0 4 4]
           \<and> cnt t = 1
       | _ \<Rightarrow> False)"
  by code_simp

section \<open>The start of main, and the exits\<close>

lemma getopt_loop_frame:
  "getopt_loop opts os s = Ret os' s1 \<Longrightarrow>
   trace s1 = trace s \<and> script s1 = script s \<and> fd s1 = fd s \<and> cnt s1 = cnt s
   \<and> atexit_fns s1 = atexit_fns s \<and> src s1 = src s \<and> src_fd s1 = src_fd s
   \<and> environ s1 = environ s \<and> pid s1 = pid s"
proof (induction opts os s rule: getopt_loop.induct)
  case (1 os s)
  then show ?case by simp
next
  case (2 opt optarg rest os s)
  consider (w) "opt = CHR ''w''"
    | (d) "opt \<noteq> CHR ''w''" "opt = CHR ''d''"
    | (c) "opt \<noteq> CHR ''w''" "opt \<noteq> CHR ''d''" "opt = CHR ''c''"
    | (r) "opt \<noteq> CHR ''w''" "opt \<noteq> CHR ''d''" "opt \<noteq> CHR ''c''" "opt = CHR ''r''"
    | (t) "opt \<noteq> CHR ''w''" "opt \<noteq> CHR ''d''" "opt \<noteq> CHR ''c''" "opt \<noteq> CHR ''r''"
        "opt = CHR ''t''"
    | (n) "opt \<noteq> CHR ''w''" "opt \<noteq> CHR ''d''" "opt \<noteq> CHR ''c''" "opt \<noteq> CHR ''r''"
        "opt \<noteq> CHR ''t''" "opt = CHR ''n''"
    | (other) "opt \<noteq> CHR ''w''" "opt \<noteq> CHR ''d''" "opt \<noteq> CHR ''c''" "opt \<noteq> CHR ''r''"
        "opt \<noteq> CHR ''t''" "opt \<noteq> CHR ''n''"
    by blast
  then show ?case
  proof cases
    case w
    from "2.IH"(1)[OF w] "2.prems" w show ?thesis by simp
  next
    case d
    from "2.IH"(2)[OF d] "2.prems" d show ?thesis by simp
  next
    case c
    from "2.IH"(3)[OF c] "2.prems" c show ?thesis by simp
  next
    case r
    from "2.IH"(4)[OF r] "2.prems" r show ?thesis by simp
  next
    case t
    from "2.IH"(5)[OF t] "2.prems" t show ?thesis by simp
  next
    case n
    from "2.IH"(6)[OF n] "2.prems" n show ?thesis by simp
  next
    case other
    with "2.prems" show ?thesis by (simp add: usage_def)
  qed
qed

lemma syscall_trace: "syscall s = Ret v t \<Longrightarrow> trace t = trace s"
  by (auto simp: syscall_def split: list.splits sysret.splits)

lemma sys_popen_run:
  assumes "sys_popen cp s = Ret h t"
  shows "\<exists>v. h = (if v = - 1 then None else Some v) \<and> trace t = trace s @ [Popen cp (environ s) v]
     \<and> only_io s t"
proof -
  from assms obtain v s1 where a: "syscall s = Ret v s1"
    and b: "h = (if v = - 1 then None else Some v)" and c: "t = emit (Popen cp (environ s1) v) s1"
    by (auto simp: sys_popen_def bnd_Ret_iff)
  have io: "only_io s s1" using a by (rule syscall_only_io)
  have "trace t = trace s @ [Popen cp (environ s) v]"
    unfolding c using syscall_trace[OF a] only_io_fields(8)[OF io] by (simp add: emit_def)
  moreover have "only_io s t"
    unfolding c emit_def using io by (rule only_io_upd)
  ultimately show ?thesis using b by blast
qed

lemma sys_fscanf_s_only_io: "sys_fscanf_s s = Ret r t \<Longrightarrow> only_io s t \<and> trace t = trace s"
  by (auto simp: sys_fscanf_s_def only_io_script only_io_upd split: list.splits sysret.splits)

lemma default_name_frame:
  assumes "default_name s = Ret u s2"
  shows "(\<exists>h. trace s2 = trace s @ [Popen (Some ''realpath . | cksum /dev/stdin'') (environ s) h, Pclose h])
   \<and> tmpbasename s2 \<noteq> None \<and> fd s2 = fd s \<and> cnt s2 = cnt s
   \<and> atexit_fns s2 = atexit_fns s \<and> src s2 = src s \<and> src_fd s2 = src_fd s
   \<and> environ s2 = environ s \<and> pid s2 = pid s"
proof -
  from assms obtain CS s1 where
    p: "sys_popen (Some ''realpath . | cksum /dev/stdin'') s = Ret CS s1"
    and r: "(case CS of None \<Rightarrow> die (Some ''popen/tmpbasename'') (errno s1) s1
             | Some h \<Rightarrow> bnd (sys_fscanf_s s1) (\<lambda>(n, cs) s2.
                 if n \<noteq> 1 then die (Some ''popen/fscanf'') 1 s2
                 else Ret () ((emit (Pclose h) s2)\<lparr>tmpbasename := Some cs\<rparr>))) = Ret u s2"
    unfolding default_name_def bnd_Ret_iff by blast
  from r obtain h where h: "CS = Some h" by (cases CS) auto
  from sys_popen_run[OF p] h have
    t1: "trace s1 = trace s @ [Popen (Some ''realpath . | cksum /dev/stdin'') (environ s) h]"
    and io1: "only_io s s1"
    by (auto split: if_splits)
  from r h obtain n cs t where
    f: "sys_fscanf_s s1 = Ret (n, cs) t" and e: "s2 = (emit (Pclose h) t)\<lparr>tmpbasename := Some cs\<rparr>"
    by (auto simp: bnd_Ret_iff split: if_splits)
  from sys_fscanf_s_only_io[OF f] have io2: "only_io s1 t" and t2: "trace t = trace s1" by simp_all
  note a = only_io_fields[OF io1] and b = only_io_fields[OF io2]
  have "trace s2 = trace s @ [Popen (Some ''realpath . | cksum /dev/stdin'') (environ s) h, Pclose h]"
    unfolding e using t1 t2 by (simp add: emit_def)
  moreover have "tmpbasename s2 \<noteq> None" "fd s2 = fd s" "cnt s2 = cnt s"
    "atexit_fns s2 = atexit_fns s" "src s2 = src s" "src_fd s2 = src_fd s"
    "environ s2 = environ s" "pid s2 = pid s"
    unfolding e using a(1,2,5,6,8,9,13) b(1,2,5,6,8,9,13) by (simp_all add: emit_def)
  ultimately show ?thesis by blast
qed

text \<open>What the start of \<open>main\<close> leaves when it returns: the three file names, derived from
  one instance name, and nothing else than the helper that computes the default name.\<close>

lemma prologue_run:
  assumes "prologue opts (init_state p env scr) = Ret os s3"
  shows "\<exists>n. tmpbasename s3 = Some n
    \<and> SOCKFILE s3 = Some (file_name n ''.sock'') \<and> PIDFILE s3 = Some (file_name n ''.pid'')
    \<and> LOCKFILE s3 = Some (file_name n ''.lock'')
    \<and> cnt s3 = 0 \<and> src s3 = None \<and> src_fd s3 = 0 \<and> atexit_fns s3 = []
    \<and> environ s3 = env \<and> pid s3 = p
    \<and> (trace s3 = []
        \<or> (\<exists>h. trace s3 = [Popen (Some ''realpath . | cksum /dev/stdin'') env h, Pclose h]))"
proof -
  from assms obtain s1 s2 where
    g: "getopt_loop opts \<lparr>opt_client = False, opt_dryrun = False, opt_restart = False\<rparr>
          (init_state p env scr) = Ret os s1"
    and d: "(if tmpbasename s1 = None then default_name s1 else Ret () s1) = Ret () s2"
    and s3: "s3 = set_names s2"
    by (auto simp: prologue_def bnd_Ret_iff)
  note f1 = getopt_loop_frame[OF g]
  have i: "trace (init_state p env scr) = []" "cnt (init_state p env scr) = 0"
    "src (init_state p env scr) = None" "src_fd (init_state p env scr) = 0"
    "atexit_fns (init_state p env scr) = []" "environ (init_state p env scr) = env"
    "pid (init_state p env scr) = p"
    by (simp_all add: init_state_def)
  have n3: "tmpbasename s3 = tmpbasename s2" "cnt s3 = cnt s2" "src s3 = src s2"
    "src_fd s3 = src_fd s2" "atexit_fns s3 = atexit_fns s2" "environ s3 = environ s2"
    "pid s3 = pid s2" "trace s3 = trace s2"
    unfolding s3 by (simp_all add: set_names_def Let_def)
  have nm: "SOCKFILE s3 = Some (file_name n ''.sock'') \<and> PIDFILE s3 = Some (file_name n ''.pid'')
      \<and> LOCKFILE s3 = Some (file_name n ''.lock'')" if "tmpbasename s2 = Some n" for n
    unfolding s3 using that by (simp add: set_names_def Let_def)
  have "\<exists>n. tmpbasename s2 = Some n \<and> cnt s2 = 0 \<and> src s2 = None \<and> src_fd s2 = 0
      \<and> atexit_fns s2 = [] \<and> environ s2 = env \<and> pid s2 = p
      \<and> (trace s2 = []
          \<or> (\<exists>h. trace s2 = [Popen (Some ''realpath . | cksum /dev/stdin'') env h, Pclose h]))"
  proof (cases "tmpbasename s1")
    case None
    with d have dn: "default_name s1 = Ret () s2" by simp
    note f2 = default_name_frame[OF dn]
    from f2 obtain n where n: "tmpbasename s2 = Some n" by auto
    from f2 obtain h where h: "trace s2 = trace s1 @ [Popen (Some ''realpath . | cksum /dev/stdin'') (environ s1) h, Pclose h]"
      by blast
    have "trace s2 = [Popen (Some ''realpath . | cksum /dev/stdin'') env h, Pclose h]"
      using h f1 i by simp
    moreover have "cnt s2 = 0" "src s2 = None" "src_fd s2 = 0" "atexit_fns s2 = []"
      "environ s2 = env" "pid s2 = p"
      using f1 f2 i by simp_all
    ultimately show ?thesis using n by blast
  next
    case (Some n)
    with d have e: "s2 = s1" by simp
    have "cnt s2 = 0" "src s2 = None" "src_fd s2 = 0" "atexit_fns s2 = []"
      "environ s2 = env" "pid s2 = p" "trace s2 = []"
      unfolding e using f1 i by simp_all
    then show ?thesis using Some e by blast
  qed
  then obtain n where k: "tmpbasename s2 = Some n" "cnt s2 = 0" "src s2 = None" "src_fd s2 = 0"
    "atexit_fns s2 = []" "environ s2 = env" "pid s2 = p"
    "trace s2 = [] \<or> (\<exists>h. trace s2 = [Popen (Some ''realpath . | cksum /dev/stdin'') env h, Pclose h])"
    by blast
  show ?thesis
    using nm[OF k(1)] k unfolding n3[symmetric] by blast
qed

lemma bnd_die [simp]: "bnd (die m e s) f = die m e s"
  by (simp add: die_def exit_proc_def Let_def)

lemma main_after_prologue:
  assumes "prologue opts s = Ret os s3" and "\<not> opt_dryrun os" and "\<not> opt_restart os"
  shows "main opts argv s =
    bnd (if opt_client os then client argv s3 else Ret () s3) (\<lambda>_ s5.
      if length argv = 0 then die (Some ''no arguments'') 1 s5 else server argv s5)"
  using assms by (simp add: main_def)

text \<open>C8. A server started while another holds the lock of the same instance name (its
  \<open>flock\<close> fails): the process ends with \<open>exit(1)\<close>, and everything it has done by then is
  to run the helper for the default name, when no name was given, to open the lock file and
  to call \<open>flock\<close>. It has unlinked nothing, written no PID file, and created neither a socket
  nor a producer.\<close>

theorem second_server_stops_at_lock:
  assumes "prologue opts (init_state p env scr) = Ret os s3"
    and "\<not> opt_dryrun os" and "\<not> opt_restart os" and "\<not> opt_client os" and "argv \<noteq> []"
    and "script s3 = Ok lfd # Fail e # rest" and "lfd \<noteq> - 1"
  shows "\<exists>s'. main opts argv (init_state p env scr) = Halt (Exited 1) s'
     \<and> trace s' = trace s3 @ [OpenLock (LOCKFILE s3) lfd, Flock lfd (- 1)]
     \<and> (trace s3 = []
         \<or> (\<exists>h. trace s3 = [Popen (Some ''realpath . | cksum /dev/stdin'') env h, Pclose h]))"
proof -
  from prologue_run[OF assms(1)] obtain n where n: "tmpbasename s3 = Some n"
    "LOCKFILE s3 = Some (file_name n ''.lock'')" "atexit_fns s3 = []"
    and tr: "trace s3 = []
         \<or> (\<exists>h. trace s3 = [Popen (Some ''realpath . | cksum /dev/stdin'') env h, Pclose h])"
    by blast
  have m: "main opts argv (init_state p env scr) = server argv s3"
    using main_after_prologue[OF assms(1,2,3)] assms(4,5) by simp
  have "\<exists>s'. server argv s3 = Halt (Exited 1) s'
     \<and> trace s' = trace s3 @ [OpenLock (LOCKFILE s3) lfd, Flock lfd (- 1)]"
    using n assms(6,7)
    by (simp add: server_def Let_def syscall_def emit_def exit_proc_def)
  with m tr show ?thesis by simp
qed

theorem second_server_stops_at_lock_witness:
  "\<exists>os s3. prologue [(CHR ''n'', ''tuner'')] (init_state 100 [] [Ok 3, Fail 11]) = Ret os s3
     \<and> \<not> opt_dryrun os \<and> \<not> opt_restart os \<and> \<not> opt_client os \<and> [''sh'', ''encode.sh''] \<noteq> []
     \<and> script s3 = Ok 3 # Fail 11 # [] \<and> (3::int) \<noteq> - 1
     \<and> (\<exists>s'. main [(CHR ''n'', ''tuner'')] [''sh'', ''encode.sh''] (init_state 100 [] [Ok 3, Fail 11])
               = Halt (Exited 1) s'
           \<and> trace s' = trace s3 @ [OpenLock (LOCKFILE s3) 3, Flock 3 (- 1)])"
proof -
  have "case prologue [(CHR ''n'', ''tuner'')] (init_state 100 [] [Ok 3, Fail 11]) of
          Ret os s3 \<Rightarrow> \<not> opt_dryrun os \<and> \<not> opt_restart os \<and> \<not> opt_client os
             \<and> script s3 = Ok 3 # Fail 11 # []
        | _ \<Rightarrow> False"
    by (simp add: prologue_def init_state_def set_names_def Let_def)
  then obtain os s3 where
    a: "prologue [(CHR ''n'', ''tuner'')] (init_state 100 [] [Ok 3, Fail 11]) = Ret os s3"
    and b: "\<not> opt_dryrun os" and c: "\<not> opt_restart os" and d: "\<not> opt_client os"
    and f: "script s3 = Ok 3 # Fail 11 # []"
    by (auto split: result.splits)
  have e: "[''sh'', ''encode.sh''] \<noteq> []" and g: "(3::int) \<noteq> - 1" by simp_all
  show ?thesis
    using a b c d e f g second_server_stops_at_lock[OF a b c d e f g] by blast
qed


section \<open>The marker in the environment of the producer\<close>

lemma unmarked_simps [simp]:
  "unmarked v [] = []"
  "unmarked v (tr @ tr') = unmarked v tr @ unmarked v tr'"
  "unmarked v (ev # tr) = (if marked v ev then unmarked v tr else ev # unmarked v tr)"
  by (simp_all add: unmarked_def)

lemma keeps_bnd:
  assumes "keeps v u env p m"
    and "\<And>x s1. unmarked v (trace s1) = u \<Longrightarrow> environ s1 = env \<Longrightarrow> pid s1 = p
           \<Longrightarrow> keeps v u env p (f x s1)"
  shows "keeps v u env p (bnd m f)"
  using assms by (cases m) (auto simp: keeps_def)

lemma keeps_Ret:
  "unmarked v (trace t) = u \<Longrightarrow> environ t = env \<Longrightarrow> pid t = p \<Longrightarrow> keeps v u env p (Ret x t)"
  by (simp add: keeps_def)

lemma keeps_Stuck [simp]: "keeps v u env p Stuck"
  by (simp add: keeps_def)

lemma keeps_syscall:
  "unmarked v (trace s) = u \<Longrightarrow> environ s = env \<Longrightarrow> pid s = p \<Longrightarrow> keeps v u env p (syscall s)"
  by (auto simp: keeps_def syscall_def split: list.splits sysret.splits)

lemma close_clients_unmarked:
  "unmarked v (trace (close_clients s)) = unmarked v (trace s)"
proof (induction s rule: close_clients.induct)
  case (1 s)
  show ?case
  proof (cases "cnt s = 0")
    case True
    then show ?thesis by (simp add: close_clients.simps[of s])
  next
    case False
    from "1.IH"[OF False] False show ?thesis
      by (simp add: close_clients.simps[of s] emit_def)
  qed
qed

lemma run_atexit_unmarked:
  "unmarked v (trace (run_atexit fs s)) = unmarked v (trace s)"
  by (induction fs s rule: run_atexit.induct)
    (simp_all add: rm_pidfile_def rm_sockfile_def emit_def)

lemma keeps_exit:
  "unmarked v (trace s) = u \<Longrightarrow> keeps v u env p (exit_proc e s)"
  by (simp add: keeps_def exit_proc_def run_atexit_unmarked)

lemma keeps_die:
  "unmarked v (trace s) = u \<Longrightarrow> keeps v u env p (die m e s)"
  by (simp add: keeps_def die_def exit_proc_def Let_def run_atexit_unmarked close_clients_unmarked
      close_src_def signal_def rm_pidfile_def rm_sockfile_def emit_def split: option.splits)

lemma keeps_sys_setfl:
  "unmarked v (trace s) = u \<Longrightarrow> environ s = env \<Longrightarrow> pid s = p \<Longrightarrow>
   keeps v u env p (sys_setfl f x s)"
  unfolding sys_setfl_def
  by (auto intro!: keeps_bnd keeps_syscall keeps_Ret simp: emit_def)

lemma keeps_mk_blocking:
  "unmarked v (trace s) = u \<Longrightarrow> environ s = env \<Longrightarrow> pid s = p \<Longrightarrow>
   keeps v u env p (mk_blocking f s)"
  unfolding mk_blocking_def
  by (auto intro!: keeps_bnd keeps_syscall keeps_Ret keeps_die keeps_sys_setfl)

lemma keeps_mk_nonblocking:
  "unmarked v (trace s) = u \<Longrightarrow> environ s = env \<Longrightarrow> pid s = p \<Longrightarrow>
   keeps v u env p (mk_nonblocking f s)"
  unfolding mk_nonblocking_def
  by (auto intro!: keeps_bnd keeps_syscall keeps_Ret keeps_die keeps_sys_setfl)

lemma keeps_listen_setup:
  "unmarked v (trace s) = u \<Longrightarrow> environ s = env \<Longrightarrow> pid s = p \<Longrightarrow>
   keeps v u env p (listen_setup s)"
  unfolding listen_setup_def Let_def
  by (auto intro!: keeps_bnd keeps_syscall keeps_Ret keeps_die
      simp: emit_def atexit_def rm_sockfile_def umask_def split: prod.splits)

lemma keeps_accept_round:
  "unmarked v (trace s) = u \<Longrightarrow> environ s = env \<Longrightarrow> pid s = p \<Longrightarrow>
   keeps v u env p (accept_round s)"
  unfolding accept_round_def Let_def
  by (auto intro!: keeps_bnd keeps_syscall keeps_Ret keeps_die keeps_mk_blocking keeps_mk_nonblocking
      simp: emit_def admit_def)

lemma keeps_accept_client:
  "unmarked v (trace s) = u \<Longrightarrow> environ s = env \<Longrightarrow> pid s = p \<Longrightarrow>
   keeps v u env p (accept_client s)"
proof (induction s rule: accept_client.induct)
  case (1 s)
  have k: "keeps v u env p (accept_round s)" using "1.prems" by (rule keeps_accept_round)
  show ?case
  proof (cases "accept_round s")
    case Stuck
    then show ?thesis by (simp add: accept_client.simps[of s])
  next
    case (Halt e t)
    with k show ?thesis by (simp add: accept_client.simps[of s] keeps_def)
  next
    case (Ret again t)
    with k have f: "unmarked v (trace t) = u" "environ t = env" "pid t = p"
      by (simp_all add: keeps_def)
    show ?thesis
    proof (cases again)
      case True
      from "1.IH"[OF Ret True f] Ret True show ?thesis by (simp add: accept_client.simps[of s])
    next
      case False
      with Ret f show ?thesis by (simp add: accept_client.simps[of s] keeps_def)
    qed
  qed
qed

lemma keeps_check_for_new_clients:
  "unmarked v (trace s) = u \<Longrightarrow> environ s = env \<Longrightarrow> pid s = p \<Longrightarrow>
   keeps v u env p (check_for_new_clients s)"
  unfolding check_for_new_clients_def
  by (auto intro!: keeps_bnd keeps_Ret keeps_listen_setup keeps_mk_blocking keeps_accept_client)

lemma keeps_Halt: "unmarked v (trace t) = u \<Longrightarrow> keeps v u env p (Halt e t)"
  by (simp add: keeps_def)

lemma keeps_open_src:
  "unmarked v (trace s) = u \<Longrightarrow> environ s = env \<Longrightarrow> pid s = p \<Longrightarrow>
   map_of env DELIVERYPID = Some v \<Longrightarrow> keeps v u env p (open_src argv s)"
  unfolding open_src_def Let_def sys_popen_def
  by (auto intro!: keeps_bnd keeps_syscall keeps_Ret keeps_die
      simp: emit_def close_src_def signal_def split: option.splits)

lemma keeps_alloc_buffer:
  "unmarked v (trace s) = u \<Longrightarrow> environ s = env \<Longrightarrow> pid s = p \<Longrightarrow>
   keeps v u env p (alloc_buffer s)"
  unfolding alloc_buffer_def Let_def
  by (auto intro!: keeps_bnd keeps_syscall keeps_Ret keeps_die)

lemma keeps_sys_fread:
  "unmarked v (trace s) = u \<Longrightarrow> environ s = env \<Longrightarrow> pid s = p \<Longrightarrow>
   keeps v u env p (sys_fread s)"
  by (auto simp: keeps_def sys_fread_def emit_def Let_def split: list.splits sysret.splits)

lemma keeps_fread_loop:
  "unmarked v (trace s) = u \<Longrightarrow> environ s = env \<Longrightarrow> pid s = p \<Longrightarrow>
   keeps v u env p (fread_loop s)"
proof (induction s rule: fread_loop.induct)
  case (1 s)
  have k: "keeps v u env p (sys_fread s)" using "1.prems" by (rule keeps_sys_fread)
  show ?case
  proof (cases "sys_fread s")
    case Stuck
    then show ?thesis by (simp add: fread_loop.simps[of s])
  next
    case (Halt e t)
    with k show ?thesis by (simp add: fread_loop.simps[of s] keeps_def)
  next
    case (Ret err t)
    with k have f: "unmarked v (trace t) = u" "environ t = env" "pid t = p"
      by (simp_all add: keeps_def)
    show ?thesis
    proof (cases "err < 1 \<and> (errno t = EINTR \<or> errno t = EAGAIN)")
      case True
      from "1.IH"[OF Ret True f] Ret True show ?thesis by (simp add: fread_loop.simps[of s])
    next
      case False
      with Ret f show ?thesis by (auto simp: fread_loop.simps[of s] keeps_def)
    qed
  qed
qed

lemma keeps_read_buf:
  "unmarked v (trace s) = u \<Longrightarrow> environ s = env \<Longrightarrow> pid s = p \<Longrightarrow>
   keeps v u env p (read_buf s)"
  unfolding read_buf_def
  by (auto intro!: keeps_bnd keeps_Ret keeps_Halt keeps_die keeps_alloc_buffer keeps_fread_loop)

lemma keeps_sys_write:
  "unmarked v (trace s) = u \<Longrightarrow> environ s = env \<Longrightarrow> pid s = p \<Longrightarrow>
   keeps v u env p (sys_write f off nr s)"
  unfolding sys_write_def
  by (auto intro!: keeps_bnd keeps_syscall keeps_Ret simp: emit_def)

lemma keeps_write_all:
  "unmarked v (trace s) = u \<Longrightarrow> environ s = env \<Longrightarrow> pid s = p \<Longrightarrow>
   keeps v u env p (write_all i off nr s)"
proof (induction i off nr s rule: write_all.induct)
  case (1 i off nr s)
  have k: "keeps v u env p (sys_write (fd s ! i) off nr s)" using "1.prems" by (rule keeps_sys_write)
  show ?case
  proof (cases "nr = 0")
    case True
    with "1.prems" show ?thesis by (simp add: write_all.simps keeps_def)
  next
    case False
    note nz = this
    show ?thesis
    proof (cases "sys_write (fd s ! i) off nr s")
      case Stuck
      with nz show ?thesis by (simp add: write_all.simps[of i off nr s])
    next
      case (Halt e t)
      then show ?thesis by simp
    next
      case (Ret nw t)
      with k have f: "unmarked v (trace t) = u" "environ t = env" "pid t = p"
        by (simp_all add: keeps_def)
      show ?thesis
        using nz Ret f "1.IH"(1)[OF nz Ret _ _ f] "1.IH"(2)[OF nz Ret _ f]
        by (auto simp: write_all.simps[of i off nr s] keeps_def)
    qed
  qed
qed

lemma keeps_write_loop:
  "unmarked v (trace s) = u \<Longrightarrow> environ s = env \<Longrightarrow> pid s = p \<Longrightarrow>
   keeps v u env p (write_loop i s)"
proof (induction i s rule: write_loop.induct)
  case (1 i s)
  have k: "keeps v u env p (write_all i 0 (bufsz s) s)" using "1.prems" by (rule keeps_write_all)
  show ?case
  proof (cases "i < cnt s")
    case False
    with "1.prems" show ?thesis by (simp add: write_loop.simps[of i s] keeps_def)
  next
    case True
    note lt = this
    show ?thesis
    proof (cases "write_all i 0 (bufsz s) s")
      case Stuck
      with lt show ?thesis by (simp add: write_loop.simps[of i s])
    next
      case (Halt e t)
      with lt k show ?thesis by (simp add: write_loop.simps[of i s] keeps_def)
    next
      case (Ret nr t)
      with k have f: "unmarked v (trace t) = u" "environ t = env" "pid t = p"
        by (simp_all add: keeps_def)
      have g: "unmarked v (trace (drop_client i t)) = u" "environ (drop_client i t) = env"
        "pid (drop_client i t) = p"
        using f by (simp_all add: drop_client_def Let_def emit_def)
      show ?thesis
      proof (cases "nr = 0")
        case True
        from "1.IH"(1)[OF lt Ret True f] lt Ret True show ?thesis
          by (simp add: write_loop.simps[of i s])
      next
        case False
        from "1.IH"(2)[OF lt Ret False g] lt Ret False show ?thesis
          by (simp add: write_loop.simps[of i s])
      qed
    qed
  qed
qed

lemma keeps_server_iter:
  "unmarked v (trace s) = u \<Longrightarrow> environ s = env \<Longrightarrow> pid s = p \<Longrightarrow>
   map_of env DELIVERYPID = Some v \<Longrightarrow> keeps v u env p (server_iter argv s)"
  unfolding server_iter_def write_buf_def
  by (auto intro!: keeps_bnd keeps_Ret keeps_check_for_new_clients keeps_open_src keeps_read_buf
      keeps_write_loop)

lemma keeps_server_loop:
  "unmarked v (trace s) = u \<Longrightarrow> environ s = env \<Longrightarrow> pid s = p \<Longrightarrow>
   map_of env DELIVERYPID = Some v \<Longrightarrow> keeps v u env p (server_loop argv s)"
proof (induction argv s rule: server_loop.induct)
  case (1 argv s)
  have k: "keeps v u env p (server_iter argv s)" using "1.prems" by (rule keeps_server_iter)
  show ?case
  proof (cases "server_iter argv s")
    case Stuck
    then show ?thesis by (simp add: server_loop.simps[of argv s])
  next
    case (Halt e t)
    with k show ?thesis by (simp add: server_loop.simps[of argv s] keeps_def)
  next
    case (Ret x t)
    with k have f: "unmarked v (trace t) = u" "environ t = env" "pid t = p"
      by (simp_all add: keeps_def)
    show ?thesis
    proof (cases "cnt t \<noteq> 0")
      case True
      from "1.IH"[OF Ret True f "1.prems"(4)] Ret True show ?thesis
        by (simp add: server_loop.simps[of argv s])
    next
      case False
      with Ret keeps_die[OF f(1), of env p "Some ''''" 0] show ?thesis
        by (simp add: server_loop.simps[of argv s])
    qed
  qed
qed

lemma keeps_wrt_pidfile:
  "unmarked v (trace s) = u \<Longrightarrow> environ s = env \<Longrightarrow> pid s = p \<Longrightarrow>
   keeps v u env p (wrt_pidfile s)"
  unfolding wrt_pidfile_def
  by (auto intro!: keeps_bnd keeps_syscall keeps_Ret keeps_die simp: emit_def atexit_def)

lemma setenv_marker:
  "map_of (environ (setenv DELIVERYPID x 0 s)) DELIVERYPID
     = Some (case map_of (environ s) DELIVERYPID of None \<Rightarrow> x | Some w \<Rightarrow> w)"
  by (auto simp: setenv_def)

lemma server_run_marker:
  assumes "server_run argv s = Halt e s'"
  shows "unmarked (case map_of (environ s) DELIVERYPID of None \<Rightarrow> dec_int (pid s) | Some w \<Rightarrow> w) (trace s')
    = unmarked (case map_of (environ s) DELIVERYPID of None \<Rightarrow> dec_int (pid s) | Some w \<Rightarrow> w) (trace s)"
proof -
  define v where "v = (case map_of (environ s) DELIVERYPID of None \<Rightarrow> dec_int (pid s) | Some w \<Rightarrow> w)"
  define env where "env = environ (setenv DELIVERYPID (dec_int (pid s)) 0 s)"
  have m: "map_of env DELIVERYPID = Some v"
    unfolding env_def v_def by (rule setenv_marker)
  have "keeps v (unmarked v (trace s)) env (pid s) (server_run argv s)"
    unfolding server_run_def Let_def
    by (intro keeps_bnd keeps_wrt_pidfile keeps_server_loop m)
      (simp_all add: signal_def setenv_def env_def SIGHUP_def SIGTERM_def SIGINT_def SIGKILL_def
        SIGCHLD_def SIGPIPE_def)
  with assms show ?thesis by (simp add: keeps_def v_def)
qed

lemma syscall_not_Halt [simp]: "syscall s \<noteq> Halt e t"
  by (auto simp: syscall_def split: list.splits sysret.splits)

lemma server_marker:
  assumes "server argv s = Halt e s'"
  shows "unmarked (case map_of (environ s) DELIVERYPID of None \<Rightarrow> dec_int (pid s) | Some w \<Rightarrow> w) (trace s')
    = unmarked (case map_of (environ s) DELIVERYPID of None \<Rightarrow> dec_int (pid s) | Some w \<Rightarrow> w) (trace s)"
proof -
  define v where "v = (case map_of (environ s) DELIVERYPID of None \<Rightarrow> dec_int (pid s) | Some w \<Rightarrow> w)"
  define s0 where "s0 = s\<lparr>LOCKFILE :=
      Some (file_name (case tmpbasename s of None \<Rightarrow> ''(null)'' | Some n \<Rightarrow> n) ''.lock'')\<rparr>"
  from assms[unfolded server_def Let_def] obtain lfd t1 where a: "syscall s0 = Ret lfd t1"
    and b: "(if lfd = - 1 then exit_proc 1 (emit (OpenLock (LOCKFILE t1) lfd) t1)
             else bnd (syscall (emit (OpenLock (LOCKFILE t1) lfd) t1)) (\<lambda>fl t2.
               if fl \<noteq> 0 then exit_proc 1 (emit (Flock lfd fl) t2)
               else server_run argv (emit (Flock lfd fl) t2))) = Halt e s'"
    by (auto simp: bnd_Halt_iff s0_def)
  have f1: "trace t1 = trace s" "environ t1 = environ s" "pid t1 = pid s"
    using syscall_trace[OF a] only_io_fields(8,9)[OF syscall_only_io[OF a]] by (simp_all add: s0_def)
  show ?thesis
  proof (cases "lfd = - 1")
    case True
    with b f1 show ?thesis
      by (auto simp: exit_proc_def run_atexit_unmarked emit_def v_def[symmetric])
  next
    case False
    with b obtain fl t2 where c: "syscall (emit (OpenLock (LOCKFILE t1) lfd) t1) = Ret fl t2"
      and d: "(if fl \<noteq> 0 then exit_proc 1 (emit (Flock lfd fl) t2)
               else server_run argv (emit (Flock lfd fl) t2)) = Halt e s'"
      by (auto simp: bnd_Halt_iff)
    have f2: "trace t2 = trace s @ [OpenLock (LOCKFILE t1) lfd]" "environ t2 = environ s"
      "pid t2 = pid s"
      using syscall_trace[OF c] only_io_fields(8,9)[OF syscall_only_io[OF c]] f1
      by (simp_all add: emit_def)
    show ?thesis
    proof (cases "fl \<noteq> 0")
      case True
      with d f2 show ?thesis
        by (auto simp: exit_proc_def run_atexit_unmarked emit_def v_def[symmetric])
    next
      case False
      with d have r: "server_run argv (emit (Flock lfd fl) t2) = Halt e s'" by simp
      have g: "environ (emit (Flock lfd fl) t2) = environ s" "pid (emit (Flock lfd fl) t2) = pid s"
        "trace (emit (Flock lfd fl) t2) = trace s @ [OpenLock (LOCKFILE t1) lfd, Flock lfd fl]"
        using f2 by (simp_all add: emit_def)
      from server_run_marker[OF r] show ?thesis
        unfolding g v_def by simp
    qed
  qed
qed

lemma prologue_name_only:
  "prologue [(CHR ''n'', nm)] (init_state p env scr)
    = Ret \<lparr>opt_client = False, opt_dryrun = False, opt_restart = False\<rparr>
        (set_names ((init_state p env scr)\<lparr>tmpbasename := Some nm\<rparr>))"
  by (simp add: prologue_def init_state_def)

lemma server_lock_taken:
  assumes "script s = Ok lfd # Ok 0 # rest" and "lfd \<noteq> - 1" and "tmpbasename s = Some nm"
  shows "server argv s =
    server_run argv (s\<lparr>LOCKFILE := Some (file_name nm ''.lock''), script := rest,
      trace := trace s @ [OpenLock (Some (file_name nm ''.lock'')) lfd, Flock lfd 0]\<rparr>)"
  using assms by (simp add: server_def Let_def syscall_def emit_def)

text \<open>C9, as it stands, at an input: the server has the process identifier 100 and finds
  \<open>_DELIVERY_PID=77\<close> in its environment. \<open>setenv\<close> is called with \<open>overwrite = 0\<close> and leaves
  the variable alone, and the producer is spawned with 77, not with 100.\<close>

theorem inherited_marker_counterexample:
  "case nested_run of
     Halt e t \<Rightarrow>
       filter is_spawn (trace t) = [Popen (Some ''sh encode.sh'') [(''_DELIVERY_PID'', ''77'')] 50]
       \<and> \<not> marked (dec_int 100) (Popen (Some ''sh encode.sh'') [(''_DELIVERY_PID'', ''77'')] 50)
   | _ \<Rightarrow> False"
proof -
  define scr where "scr = [Ok 3, Ok 0, Ok 1, Ok 4, Ok 0, Ok 0, Ok 2, Ok 0, Ok 5, Ok 2, Ok 0, Ok 2, Ok 0,
    Fail 11, Ok 50, Fail 12]"
  define S3 where "S3 = set_names ((init_state 100 [(''_DELIVERY_PID'', ''77'')] scr)\<lparr>tmpbasename := Some ''tuner''\<rparr>)"
  have e1: "nested_run = server [''sh'', ''encode.sh''] S3"
    unfolding nested_run_def S3_def scr_def
    using main_after_prologue[OF prologue_name_only] by simp
  have e2: "server [''sh'', ''encode.sh''] S3 =
    server_run [''sh'', ''encode.sh''] (S3\<lparr>LOCKFILE := Some (file_name ''tuner'' ''.lock''),
      script := drop 2 scr,
      trace := trace S3 @ [OpenLock (Some (file_name ''tuner'' ''.lock'')) 3, Flock 3 0]\<rparr>)"
    by (rule server_lock_taken) (simp_all add: S3_def scr_def set_names_def init_state_def Let_def)
  have e3: "case server_run [''sh'', ''encode.sh'']
      ((set_names ((init_state 100 [(''_DELIVERY_PID'', ''77'')]
          [Ok 3, Ok 0, Ok 1, Ok 4, Ok 0, Ok 0, Ok 2, Ok 0, Ok 5, Ok 2, Ok 0, Ok 2, Ok 0,
           Fail 11, Ok 50, Fail 12])\<lparr>tmpbasename := Some ''tuner''\<rparr>))
        \<lparr>LOCKFILE := Some (file_name ''tuner'' ''.lock''),
         script := drop 2 [Ok 3, Ok 0, Ok 1, Ok 4, Ok 0, Ok 0, Ok 2, Ok 0, Ok 5, Ok 2, Ok 0, Ok 2, Ok 0,
           Fail 11, Ok 50, Fail 12],
         trace := trace (set_names ((init_state 100 [(''_DELIVERY_PID'', ''77'')]
              [Ok 3, Ok 0, Ok 1, Ok 4, Ok 0, Ok 0, Ok 2, Ok 0, Ok 5, Ok 2, Ok 0, Ok 2, Ok 0,
               Fail 11, Ok 50, Fail 12])\<lparr>tmpbasename := Some ''tuner''\<rparr>))
            @ [OpenLock (Some (file_name ''tuner'' ''.lock'')) 3, Flock 3 0]\<rparr>) of
     Halt e t \<Rightarrow>
       filter is_spawn (trace t) = [Popen (Some ''sh encode.sh'') [(''_DELIVERY_PID'', ''77'')] 50]
       \<and> \<not> marked (dec_int 100) (Popen (Some ''sh encode.sh'') [(''_DELIVERY_PID'', ''77'')] 50)
   | _ \<Rightarrow> False"
    by code_simp
  show ?thesis
    unfolding e1 e2 using e3 unfolding S3_def scr_def .
qed

text \<open>C9, amended. From the lock to its end the server adds to the trace no spawn whose
  environment lacks the marker \<open>_DELIVERY_PID\<close> or holds another value than the expected one:
  the server's own process identifier when the variable was not in the environment the
  server started with, and otherwise the value found there.\<close>

theorem producer_marker:
  assumes "server argv s = Halt e s'"
  shows "(map_of (environ s) DELIVERYPID = None \<longrightarrow>
            unmarked (dec_int (pid s)) (trace s') = unmarked (dec_int (pid s)) (trace s))
    \<and> (\<forall>w. map_of (environ s) DELIVERYPID = Some w \<longrightarrow>
            unmarked w (trace s') = unmarked w (trace s))"
  using server_marker[OF assms] by auto


theorem producer_marker_witness:
  "\<exists>e s'. server [''sh'', ''encode.sh''] marker_state = Halt e s'
     \<and> map_of (environ marker_state) DELIVERYPID = None
     \<and> unmarked (dec_int (pid marker_state)) (trace s')
         = unmarked (dec_int (pid marker_state)) (trace marker_state)"
proof -
  have e2: "server [''sh'', ''encode.sh''] marker_state =
    server_run [''sh'', ''encode.sh''] (marker_state\<lparr>LOCKFILE := Some (file_name ''tuner'' ''.lock''),
      script := [Ok 1, Ok 4, Ok 0, Ok 0, Ok 2, Ok 0, Ok 5, Ok 2, Ok 0, Ok 2, Ok 0, Fail 11, Ok 50, Fail 12],
      trace := trace marker_state @ [OpenLock (Some (file_name ''tuner'' ''.lock'')) 3, Flock 3 0]\<rparr>)"
    by (rule server_lock_taken) (simp_all add: marker_state_def set_names_def init_state_def Let_def)
  have "case server_run [''sh'', ''encode.sh''] (marker_state\<lparr>LOCKFILE := Some (file_name ''tuner'' ''.lock''),
      script := [Ok 1, Ok 4, Ok 0, Ok 0, Ok 2, Ok 0, Ok 5, Ok 2, Ok 0, Ok 2, Ok 0, Fail 11, Ok 50, Fail 12],
      trace := trace marker_state @ [OpenLock (Some (file_name ''tuner'' ''.lock'')) 3, Flock 3 0]\<rparr>) of
        Halt e t \<Rightarrow> True | _ \<Rightarrow> False"
    by code_simp
  then obtain e s' where h: "server [''sh'', ''encode.sh''] marker_state = Halt e s'"
    unfolding e2[symmetric] by (auto split: result.splits)
  have n: "map_of (environ marker_state) DELIVERYPID = None"
    by (simp add: marker_state_def set_names_def init_state_def Let_def)
  show ?thesis
    using h n producer_marker[OF h] by blast
qed

section \<open>The end of the server loop\<close>

lemma below_bnd:
  assumes "below n m" and "\<And>x s1. length (script s1) < n \<Longrightarrow> below n (f x s1)"
  shows "below n (bnd m f)"
  using assms by (cases m) (auto simp: below_def)

lemma below_Ret: "length (script t) < n \<Longrightarrow> below n (Ret x t)"
  by (simp add: below_def)

lemma below_Halt: "length (script t) < n \<Longrightarrow> below n (Halt e t)"
  by (simp add: below_def)

lemma below_Stuck [simp]: "below n Stuck"
  by (simp add: below_def)

lemma below_syscall: "length (script s) \<le> n \<Longrightarrow> below n (syscall s)"
  by (auto simp: below_def syscall_def split: list.splits sysret.splits)

lemma close_clients_script [simp]: "script (close_clients s) = script s"
proof (induction s rule: close_clients.induct)
  case (1 s)
  show ?case
  proof (cases "cnt s = 0")
    case True
    then show ?thesis by (simp add: close_clients.simps[of s])
  next
    case False
    from "1.IH"[OF False] False show ?thesis
      by (simp add: close_clients.simps[of s] emit_def)
  qed
qed

lemma run_atexit_script [simp]: "script (run_atexit fs s) = script s"
  by (induction fs s rule: run_atexit.induct) (simp_all add: rm_pidfile_def emit_def)

lemma die_script: "die m e s = Halt x t \<Longrightarrow> script t = script s"
  by (auto simp: die_def exit_proc_def Let_def rm_pidfile_def emit_def)

lemma below_die: "length (script s) < n \<Longrightarrow> below n (die m e s)"
  by (simp add: below_def die_def exit_proc_def Let_def rm_pidfile_def emit_def)

lemma below_sys_setfl: "length (script s) \<le> n \<Longrightarrow> below n (sys_setfl f x s)"
  unfolding sys_setfl_def
  by (auto intro!: below_bnd below_syscall below_Ret simp: emit_def)

lemma below_mk_blocking: "length (script s) \<le> n \<Longrightarrow> below n (mk_blocking f s)"
  unfolding mk_blocking_def
  by (auto intro!: below_bnd below_syscall below_Ret below_die below_sys_setfl)

lemma below_mk_nonblocking: "length (script s) \<le> n \<Longrightarrow> below n (mk_nonblocking f s)"
  unfolding mk_nonblocking_def
  by (auto intro!: below_bnd below_syscall below_Ret below_die below_sys_setfl)

lemma below_listen_setup: "length (script s) \<le> n \<Longrightarrow> below n (listen_setup s)"
  unfolding listen_setup_def Let_def
  by (auto intro!: below_bnd below_syscall below_Ret below_die
      simp: emit_def atexit_def umask_def split: prod.splits)

lemma below_accept_round: "length (script s) \<le> n \<Longrightarrow> below n (accept_round s)"
  unfolding accept_round_def Let_def
  by (auto intro!: below_bnd below_syscall below_Ret below_die below_mk_blocking below_mk_nonblocking
      simp: emit_def admit_def)

lemma below_accept_client: "length (script s) \<le> n \<Longrightarrow> below n (accept_client s)"
proof (induction s rule: accept_client.induct)
  case (1 s)
  have k: "below n (accept_round s)" using "1.prems" by (rule below_accept_round)
  show ?case
  proof (cases "accept_round s")
    case Stuck
    then show ?thesis by (simp add: accept_client.simps[of s])
  next
    case (Halt e t)
    with k show ?thesis by (simp add: accept_client.simps[of s] below_def)
  next
    case (Ret again t)
    with k have f: "length (script t) < n" by (simp add: below_def)
    show ?thesis
    proof (cases again)
      case True
      from "1.IH"[OF Ret True] f Ret True show ?thesis by (simp add: accept_client.simps[of s])
    next
      case False
      with Ret f show ?thesis by (simp add: accept_client.simps[of s] below_def)
    qed
  qed
qed

lemma below_check_for_new_clients:
  "length (script s) \<le> n \<Longrightarrow> below n (check_for_new_clients s)"
  unfolding check_for_new_clients_def
  by (auto intro!: below_bnd below_listen_setup below_mk_blocking below_accept_client
      intro: below_Ret)

lemma below_open_src: "length (script s) < n \<Longrightarrow> below n (open_src argv s)"
  unfolding open_src_def Let_def sys_popen_def
  by (auto intro!: below_bnd below_syscall below_Ret below_die simp: emit_def)

lemma below_alloc_buffer: "length (script s) < n \<Longrightarrow> below n (alloc_buffer s)"
  unfolding alloc_buffer_def Let_def
  by (auto intro!: below_bnd below_syscall below_Ret below_die)

lemma below_fread_loop: "length (script s) < n \<Longrightarrow> below n (fread_loop s)"
proof (cases "fread_loop s")
  case (Ret v t)
  from fread_loop_script[OF Ret] Ret show "length (script s) < n \<Longrightarrow> ?thesis"
    by (simp add: below_def)
next
  case (Halt e t)
  have "fread_loop s \<noteq> Halt e t" for s
  proof (induction s rule: fread_loop.induct)
    case (1 s)
    show ?case
      using "1.IH"
      by (cases "sys_fread s")
        (auto simp: fread_loop.simps[of s] sys_fread_def Let_def split: list.splits sysret.splits)
  qed
  with Halt show "length (script s) < n \<Longrightarrow> ?thesis" by simp
qed simp

lemma below_read_buf: "length (script s) < n \<Longrightarrow> below n (read_buf s)"
  unfolding read_buf_def
  by (auto intro!: below_bnd below_Ret below_Halt below_die below_alloc_buffer below_fread_loop)

lemma write_all_not_Halt [simp]: "write_all i off nr s \<noteq> Halt e t"
proof (induction i off nr s rule: write_all.induct)
  case (1 i off nr s)
  show ?case
    using "1.IH"
    by (cases "sys_write (fd s ! i) off nr s") (auto simp: write_all.simps[of i off nr s])
qed

lemma write_loop_not_Halt [simp]: "write_loop i s \<noteq> Halt e t"
proof (induction i s rule: write_loop.induct)
  case (1 i s)
  show ?case
    using "1.IH"
    by (cases "write_all i 0 (bufsz s) s") (auto simp: write_loop.simps[of i s])
qed

lemma below_write_loop: "length (script s) < n \<Longrightarrow> below n (write_loop i s)"
  using write_loop_script[of i s]
  by (cases "write_loop i s") (auto simp: below_def)

lemma below_server_iter: "length (script s) \<le> n \<Longrightarrow> below n (server_iter argv s)"
  unfolding server_iter_def write_buf_def
  by (auto intro!: below_bnd below_Ret below_check_for_new_clients below_open_src below_read_buf
      below_write_loop)

lemma below_server_loop: "length (script s) \<le> n \<Longrightarrow> below n (server_loop argv s)"
proof (induction argv s rule: server_loop.induct)
  case (1 argv s)
  have k: "below n (server_iter argv s)" using "1.prems" by (rule below_server_iter)
  show ?case
  proof (cases "server_iter argv s")
    case Stuck
    then show ?thesis by (simp add: server_loop.simps[of argv s])
  next
    case (Halt e t)
    with k show ?thesis by (simp add: server_loop.simps[of argv s] below_def)
  next
    case (Ret x t)
    with k have f: "length (script t) < n" by (simp add: below_def)
    show ?thesis
    proof (cases "cnt t \<noteq> 0")
      case True
      from "1.IH"[OF Ret True] f Ret True show ?thesis
        by (simp add: server_loop.simps[of argv s])
    next
      case False
      with Ret below_die[OF f, of "Some ''''" 0] show ?thesis
        by (simp add: server_loop.simps[of argv s])
    qed
  qed
qed

text \<open>C4. When an iteration of the server loop (accept, source manager, read, broadcast)
  returns, the loop ends there, through the final \<open>die("", 0)\<close> and so with the exit status
  0, exactly when no client is left in the registry; with a client left it goes on with the
  next iteration.\<close>

theorem server_loop_ends_iff_registry_empty:
  assumes "server_iter argv s = Ret () s'"
  shows "(server_loop argv s = die (Some '''') 0 s' \<longleftrightarrow> cnt s' = 0)
    \<and> (cnt s' = 0 \<longrightarrow> (\<exists>t. server_loop argv s = Halt (Exited 0) t))
    \<and> (cnt s' \<noteq> 0 \<longrightarrow> server_loop argv s = server_loop argv s')"
proof -
  have z: "server_loop argv s = die (Some '''') 0 s'" if "cnt s' = 0"
    using assms that by (simp add: server_loop.simps[of argv s])
  have nz: "server_loop argv s = server_loop argv s'" if "cnt s' \<noteq> 0"
    using assms that by (simp add: server_loop.simps[of argv s])
  have ne: "server_loop argv s' \<noteq> die (Some '''') 0 s'"
  proof
    assume a: "server_loop argv s' = die (Some '''') 0 s'"
    from die_Halt[of "Some ''''" 0 s'] obtain t where
      t: "(die (Some '''') 0 s' :: unit result) = Halt (Exited 0) t"
      by (auto simp: die_def exit_proc_def Let_def)
    have "script t = script s'" using t by (rule die_script)
    moreover have "below (length (script s')) (server_loop argv s')"
      by (rule below_server_loop) simp
    ultimately show False using a t by (simp add: below_def)
  qed
  have h: "\<exists>t. (die (Some '''') 0 s' :: unit result) = Halt (Exited 0) t"
    by (simp add: die_def exit_proc_def Let_def)
  show ?thesis using z nz ne h by (cases "cnt s' = 0") auto
qed


theorem server_loop_ends_iff_registry_empty_witness:
  "\<exists>s'. server_iter [''sh'', ''encode.sh''] (eof_state [Data ''abcd'', Fail 32]) = Ret () s'
     \<and> cnt s' = 0
     \<and> server_loop [''sh'', ''encode.sh''] (eof_state [Data ''abcd'', Fail 32]) = die (Some '''') 0 s'"
proof -
  have "case server_iter [''sh'', ''encode.sh''] (eof_state [Data ''abcd'', Fail 32]) of
          Ret u s' \<Rightarrow> cnt s' = 0 | _ \<Rightarrow> False"
    by code_simp
  then obtain s' where
    a: "server_iter [''sh'', ''encode.sh''] (eof_state [Data ''abcd'', Fail 32]) = Ret () s'"
    and b: "cnt s' = 0"
    by (auto split: result.splits)
  show ?thesis
    using a b server_loop_ends_iff_registry_empty[OF a] by blast
qed

section \<open>The listening socket and the registry\<close>

lemma clear_bit_blocking: "((x::int) AND NOT O_NONBLOCK) AND O_NONBLOCK = 0"
  by (simp add: and.assoc)

lemma set_bit_nonblocking: "((x::int) OR O_NONBLOCK) AND O_NONBLOCK \<noteq> 0"
  by (simp add: O_NONBLOCK_def bit.conj_disj_distrib2 or_eq_0_iff)

lemma syscall_same:
  assumes "syscall s = Ret v t"
  shows "trace t = trace s" "cnt t = cnt s" "fd t = fd s" "src_fd t = src_fd s"
    "oflags t = oflags s" "registry t = registry s"
  using syscall_trace[OF assms] only_io_fields[OF syscall_only_io[OF assms]] by simp_all

lemma sys_setfl_run:
  assumes "sys_setfl f v s = Ret r t"
  shows "trace t = trace s @ [SetFl f v r]" "cnt t = cnt s" "fd t = fd s" "src_fd t = src_fd s"
    "oflags t = (if r \<noteq> - 1 then (oflags s)(f \<mapsto> v) else oflags s)"
proof -
  from assms obtain s1 where a: "syscall s = Ret r s1"
    and b: "t = emit (SetFl f v r) (if r \<noteq> - 1 then s1\<lparr>oflags := (oflags s1)(f \<mapsto> v)\<rparr> else s1)"
    by (auto simp: sys_setfl_def bnd_Ret_iff)
  note c = syscall_same[OF a]
  show "trace t = trace s @ [SetFl f v r]" "cnt t = cnt s" "fd t = fd s" "src_fd t = src_fd s"
    "oflags t = (if r \<noteq> - 1 then (oflags s)(f \<mapsto> v) else oflags s)"
    unfolding b using c by (simp_all add: emit_def)
qed

lemma mk_blocking_run:
  assumes "mk_blocking f s = Ret u t"
  shows "\<exists>v r. v AND O_NONBLOCK = 0 \<and> oflags t = (oflags s)(f \<mapsto> v)
    \<and> trace t = trace s @ [SetFl f v r] \<and> cnt t = cnt s \<and> fd t = fd s \<and> src_fd t = src_fd s"
proof -
  from assms obtain flags s1 r where a: "syscall s = Ret flags s1"
    and b: "sys_setfl f (flags AND NOT O_NONBLOCK) s1 = Ret r t" and c: "r \<noteq> - 1"
    by (auto simp: mk_blocking_def bnd_Ret_iff split: if_splits)
  note d = syscall_same[OF a] and e = sys_setfl_run[OF b]
  show ?thesis
    using c d e clear_bit_blocking[of flags]
    by (intro exI[of _ "flags AND NOT O_NONBLOCK"] exI[of _ r]) simp
qed

lemma mk_nonblocking_run:
  assumes "mk_nonblocking f s = Ret u t"
  shows "\<exists>v r. v AND O_NONBLOCK \<noteq> 0 \<and> oflags t = (oflags s)(f \<mapsto> v)
    \<and> trace t = trace s @ [SetFl f v r] \<and> cnt t = cnt s \<and> fd t = fd s \<and> src_fd t = src_fd s"
proof -
  from assms obtain flags s1 r where a: "syscall s = Ret flags s1"
    and b: "sys_setfl f (flags OR O_NONBLOCK) s1 = Ret r t" and c: "r \<noteq> - 1"
    by (auto simp: mk_nonblocking_def bnd_Ret_iff split: if_splits)
  note d = syscall_same[OF a] and e = sys_setfl_run[OF b]
  show ?thesis
    using c d e set_bit_nonblocking[of flags]
    by (intro exI[of _ "flags OR O_NONBLOCK"] exI[of _ r]) simp
qed

lemma syscall_same_conj:
  "syscall s = Ret v t \<Longrightarrow>
   trace t = trace s \<and> cnt t = cnt s \<and> fd t = fd s \<and> src_fd t = src_fd s \<and> oflags t = oflags s
   \<and> world t = world s \<and> umask_v t = umask_v s \<and> atexit_fns t = atexit_fns s"
  by (auto simp: syscall_def split: list.splits sysret.splits)

lemma listen_setup_run:
  assumes "listen_setup s = Ret u t"
  shows "cnt t = cnt s \<and> fd t = fd s \<and> oflags t = oflags s
    \<and> trace t = trace (rm_sockfile s)
        @ [Socket (src_fd t), Bind (src_fd t) (mk_sockaddr s) 0, Listen (src_fd t) 10 0]"
proof -
  define s1 where "s1 = atexit A_rm_sockfile (rm_sockfile s)"
  have f1: "cnt s1 = cnt s" "fd s1 = fd s" "oflags s1 = oflags s" "world s1 = world s"
    "trace s1 = trace (rm_sockfile s)"
    unfolding s1_def by (simp_all add: atexit_def rm_sockfile_def emit_def)
  have "cnt t = cnt s1 \<and> fd t = fd s1 \<and> oflags t = oflags s1
    \<and> trace t = trace s1
        @ [Socket (src_fd t), Bind (src_fd t) (mk_sockaddr s) 0, Listen (src_fd t) 10 0]"
  proof (cases "world s1")
    case True
    with assms[unfolded listen_setup_def Let_def s1_def[symmetric]] show ?thesis
      by (auto simp: bnd_Ret_iff emit_def umask_def dest!: syscall_same_conj split: if_splits)
  next
    case False
    with assms[unfolded listen_setup_def Let_def s1_def[symmetric]] show ?thesis
      by (auto simp: bnd_Ret_iff emit_def umask_def dest!: syscall_same_conj split: if_splits)
  qed
  with f1 show ?thesis by simp
qed

lemma accept_round_run:
  assumes "accept_round t = Ret again t'"
  shows "(cnt t' = cnt t \<and> fd t' = fd t \<and> oflags t' = oflags t \<and> src_fd t' = src_fd t
          \<and> trace t' = trace t @ [Accept (src_fd t) (- 1)])
       \<or> (again \<and> (\<exists>c v1 v2 r1 r2 t3. c \<noteq> - 1 \<and> t' = admit c t3 \<and> cnt t3 = cnt t \<and> fd t3 = fd t
             \<and> src_fd t3 = src_fd t \<and> oflags t3 = ((oflags t)(src_fd t \<mapsto> v1))(c \<mapsto> v2)
             \<and> v1 AND O_NONBLOCK \<noteq> 0 \<and> v2 AND O_NONBLOCK = 0
             \<and> trace t3 = trace t @ [Accept (src_fd t) c, SetFl (src_fd t) v1 r1, SetFl c v2 r2]))"
proof -
  from assms obtain c t0 where a: "syscall t = Ret c t0"
    and b: "(if c = - 1 \<and> errno (emit (Accept (src_fd t0) c) t0) = EWOULDBLOCK
               then Ret False (emit (Accept (src_fd t0) c) t0)
             else if c = - 1 \<and> errno (emit (Accept (src_fd t0) c) t0) = EINTR
               then Ret True (emit (Accept (src_fd t0) c) t0)
             else if c = - 1
               then die (Some ''accept'') (errno (emit (Accept (src_fd t0) c) t0))
                      (emit (Accept (src_fd t0) c) t0)
             else bnd (mk_nonblocking (src_fd (emit (Accept (src_fd t0) c) t0))
                        (emit (Accept (src_fd t0) c) t0)) (\<lambda>_ s2.
                  bnd (mk_blocking c s2) (\<lambda>_ s3. Ret True (admit c s3)))) = Ret again t'"
    unfolding accept_round_def Let_def bnd_Ret_iff by blast
  note s = syscall_same[OF a]
  define s1 where "s1 = emit (Accept (src_fd t0) c) t0"
  have f1: "cnt s1 = cnt t" "fd s1 = fd t" "oflags s1 = oflags t" "src_fd s1 = src_fd t"
    "trace s1 = trace t @ [Accept (src_fd t) c]"
    unfolding s1_def using s by (simp_all add: emit_def)
  show ?thesis
  proof (cases "c = - 1")
    case True
    with b have "t' = s1" unfolding s1_def[symmetric] by (auto split: if_splits)
    with f1 True show ?thesis by simp
  next
    case False
    with b obtain s2 s3 where m1: "mk_nonblocking (src_fd s1) s1 = Ret () s2"
      and m2: "mk_blocking c s2 = Ret () s3" and e: "t' = admit c s3" and ag: "again"
      unfolding s1_def[symmetric] by (auto simp: bnd_Ret_iff)
    from mk_nonblocking_run[OF m1] obtain v1 r1 where n1: "v1 AND O_NONBLOCK \<noteq> 0"
      "oflags s2 = (oflags s1)(src_fd s1 \<mapsto> v1)" "trace s2 = trace s1 @ [SetFl (src_fd s1) v1 r1]"
      "cnt s2 = cnt s1" "fd s2 = fd s1" "src_fd s2 = src_fd s1"
      by blast
    from mk_blocking_run[OF m2] obtain v2 r2 where n2: "v2 AND O_NONBLOCK = 0"
      "oflags s3 = (oflags s2)(c \<mapsto> v2)" "trace s3 = trace s2 @ [SetFl c v2 r2]"
      "cnt s3 = cnt s2" "fd s3 = fd s2" "src_fd s3 = src_fd s2"
      by blast
    have "c \<noteq> - 1 \<and> t' = admit c s3 \<and> cnt s3 = cnt t \<and> fd s3 = fd t
             \<and> src_fd s3 = src_fd t \<and> oflags s3 = ((oflags t)(src_fd t \<mapsto> v1))(c \<mapsto> v2)
             \<and> v1 AND O_NONBLOCK \<noteq> 0 \<and> v2 AND O_NONBLOCK = 0
             \<and> trace s3 = trace t @ [Accept (src_fd t) c, SetFl (src_fd t) v1 r1, SetFl c v2 r2]"
      using False e n1 n2 f1 by simp
    with ag show ?thesis by blast
  qed
qed

lemma fresh_ext_refl [simp]: "fresh_ext tr tr"
  by (simp add: fresh_ext_def)

lemma fresh_ext_app [simp]: "fresh_ext tr (tr @ evs) \<longleftrightarrow> (\<forall>ev\<in>set evs. fresh ev)"
  by (simp add: fresh_ext_def)

lemma fresh_ext_split:
  assumes "fresh_ext tr (tr @ a @ b)"
  shows "fresh_ext tr (tr @ a)" "fresh_ext (tr @ a) (tr @ a @ b)"
  using assms by (simp_all add: fresh_ext_def)

lemma registry_admit:
  assumes "length (fd t) = MAXCLIENT" and "cnt t \<le> MAXCLIENT"
  shows "length (fd (admit c t)) = MAXCLIENT" "cnt (admit c t) \<le> MAXCLIENT" "cnt (admit c t) \<noteq> 0"
    "oflags (admit c t) = oflags t" "src_fd (admit c t) = src_fd t"
    "registry (admit c t) = (if MAXCLIENT = cnt t then registry t else registry t @ [c])"
    "trace (admit c t) = trace t @ (if MAXCLIENT = cnt t then [Close c] else [])"
  using assms
  by (auto simp: admit_def emit_def registry_def MAXCLIENT_def take_Suc_conv_app_nth)

lemma acc_inv_round:
  assumes "accept_round t = Ret again t'" and "acc_inv s t" and "fresh_ext (trace t) (trace t')"
  shows "acc_inv s t'"
proof -
  from assms(2) obtain new where i: "listen_mode_ok t" "length (fd t) = MAXCLIENT"
    "cnt t \<le> MAXCLIENT" "registry t = registry s @ new"
    "\<forall>c\<in>set new. blocking t c \<and> c \<noteq> src_fd t" "src_fd t \<noteq> 0"
    unfolding acc_inv_def by blast
  from accept_round_run[OF assms(1)] show ?thesis
  proof
    assume a: "cnt t' = cnt t \<and> fd t' = fd t \<and> oflags t' = oflags t \<and> src_fd t' = src_fd t
          \<and> trace t' = trace t @ [Accept (src_fd t) (- 1)]"
    then have "registry t' = registry t" "listen_mode_ok t' = listen_mode_ok t"
      "\<And>c. blocking t' c = blocking t c"
      by (simp_all add: registry_def listen_mode_ok_def blocking_def nonblocking_def)
    with a i show ?thesis unfolding acc_inv_def by auto
  next
    assume "again \<and> (\<exists>c v1 v2 r1 r2 t3. c \<noteq> - 1 \<and> t' = admit c t3 \<and> cnt t3 = cnt t \<and> fd t3 = fd t
             \<and> src_fd t3 = src_fd t \<and> oflags t3 = ((oflags t)(src_fd t \<mapsto> v1))(c \<mapsto> v2)
             \<and> v1 AND O_NONBLOCK \<noteq> 0 \<and> v2 AND O_NONBLOCK = 0
             \<and> trace t3 = trace t @ [Accept (src_fd t) c, SetFl (src_fd t) v1 r1, SetFl c v2 r2])"
    then obtain c v1 v2 r1 r2 t3 where b: "t' = admit c t3" "cnt t3 = cnt t" "fd t3 = fd t"
      "src_fd t3 = src_fd t" "oflags t3 = ((oflags t)(src_fd t \<mapsto> v1))(c \<mapsto> v2)"
      "v1 AND O_NONBLOCK \<noteq> 0" "v2 AND O_NONBLOCK = 0"
      "trace t3 = trace t @ [Accept (src_fd t) c, SetFl (src_fd t) v1 r1, SetFl c v2 r2]"
      by blast
    have l3: "length (fd t3) = MAXCLIENT" "cnt t3 \<le> MAXCLIENT" using b i by simp_all
    note ad = registry_admit[OF l3, of c]
    have "trace t' = trace t @ ([Accept (src_fd t) c, SetFl (src_fd t) v1 r1, SetFl c v2 r2]
        @ (if MAXCLIENT = cnt t3 then [Close c] else []))"
      unfolding b(1) ad(7) b(8) by simp
    with assms(3) have fr: "c \<noteq> src_fd t" by simp
    have o': "oflags t' = ((oflags t)(src_fd t \<mapsto> v1))(c \<mapsto> v2)" "src_fd t' = src_fd t"
      unfolding b(1) ad using b by simp_all
    have lm: "listen_mode_ok t'"
      using ad(3) o' fr b(6) unfolding b(1)[symmetric]
      by (simp add: listen_mode_ok_def nonblocking_def)
    have bl: "blocking t' c0" if "blocking t c0" "c0 \<noteq> src_fd t" for c0
      using that o' b(7) by (simp add: blocking_def)
    have blc: "blocking t' c" using o' b(7) by (simp add: blocking_def)
    have "\<exists>new'. registry t' = registry s @ new' \<and> (\<forall>c\<in>set new'. blocking t' c \<and> c \<noteq> src_fd t')"
    proof (cases "MAXCLIENT = cnt t3")
      case True
      then have "registry t' = registry s @ new"
        unfolding b(1) ad(6) using b(2,3) i(4) by (simp add: registry_def)
      moreover have "\<forall>c\<in>set new. blocking t' c \<and> c \<noteq> src_fd t'"
        using i(5) bl o'(2) by simp
      ultimately show ?thesis by blast
    next
      case False
      then have "registry t' = registry s @ (new @ [c])"
        unfolding b(1) ad(6) using b(2,3) i(4) by (simp add: registry_def)
      moreover have "\<forall>c\<in>set (new @ [c]). blocking t' c \<and> c \<noteq> src_fd t'"
        using i(5) bl blc fr o'(2) by simp
      ultimately show ?thesis by blast
    qed
    with lm ad(1,2) o'(2) i(6) show ?thesis unfolding acc_inv_def b(1)[symmetric] by simp
  qed
qed

lemma extends_refl [simp]: "extends tr tr"
  by (simp add: extends_def)

lemma extends_app [simp]: "extends tr tr' \<Longrightarrow> extends tr (tr' @ evs)"
  by (auto simp: extends_def)

lemma extends_trans: "extends a b \<Longrightarrow> extends b c \<Longrightarrow> extends a c"
  by (auto simp: extends_def)

lemma fresh_ext_cut:
  assumes "extends a b" and "extends b c" and "fresh_ext a c"
  shows "fresh_ext a b" "fresh_ext b c"
proof -
  from assms(1,2) obtain x y where "b = a @ x" "c = b @ y" by (auto simp: extends_def)
  with assms(3) show "fresh_ext a b" "fresh_ext b c" by (simp_all add: fresh_ext_def)
qed

lemma fresh_ext_Nil: "fresh_ext [] tr \<longleftrightarrow> list_all fresh tr"
  by (simp add: fresh_ext_def list_all_iff)

lemma accept_round_trace:
  assumes "accept_round t = Ret again t'"
  shows "extends (trace t) (trace t')"
  using accept_round_run[OF assms] by (auto simp: admit_def emit_def extends_def)

lemma accept_at_first:
  assumes "(if src_fd s = 0 then listen_setup s else Ret () s) = Ret () s1"
    and "(if cnt s1 = 0 then mk_blocking (src_fd s1) s1 else Ret () s1) = Ret () s2"
    and "acceptor_inv s" and "length (fd s) = MAXCLIENT" and "cnt s \<le> MAXCLIENT"
  shows "extends (trace s) (trace s2)" "fresh_ext (trace s) (trace s2) \<Longrightarrow> acc_inv s s2"
proof -
  have a: "cnt s1 = cnt s \<and> fd s1 = fd s \<and> (cnt s \<noteq> 0 \<longrightarrow> s1 = s)
      \<and> (\<exists>evs. trace s1 = trace s @ evs \<and> (src_fd s1 = 0 \<longrightarrow> Socket 0 \<in> set evs))"
  proof (cases "src_fd s = 0")
    case True
    with assms(1) have "listen_setup s = Ret () s1" by simp
    from listen_setup_run[OF this] True assms(3) show ?thesis
      by (auto simp: acceptor_inv_def rm_sockfile_def emit_def)
  next
    case False
    with assms(1) show ?thesis by simp
  qed
  then obtain evs1 where t1: "trace s1 = trace s @ evs1"
    and z1: "src_fd s1 = 0 \<longrightarrow> Socket 0 \<in> set evs1"
    by blast
  have b: "cnt s2 = cnt s1 \<and> fd s2 = fd s1 \<and> src_fd s2 = src_fd s1
      \<and> (\<exists>evs. trace s2 = trace s1 @ evs) \<and> listen_mode_ok s2"
  proof (cases "cnt s1 = 0")
    case True
    with assms(2) have "mk_blocking (src_fd s1) s1 = Ret () s2" by simp
    from mk_blocking_run[OF this] True show ?thesis
      by (auto simp: listen_mode_ok_def blocking_def)
  next
    case False
    with assms(2) have e: "s2 = s1" by simp
    from False a have e1: "s1 = s" by simp
    have "listen_mode_ok s" using False e1 assms(3)
      by (simp add: listen_mode_ok_def acceptor_inv_def)
    then show ?thesis unfolding e e1 by simp
  qed
  then obtain evs2 where t2: "trace s2 = trace s1 @ evs2" by blast
  show "extends (trace s) (trace s2)" unfolding t2 t1 by simp
  show "acc_inv s s2" if "fresh_ext (trace s) (trace s2)"
  proof -
    from that have "\<forall>ev\<in>set evs1. fresh ev" unfolding t2 t1 by (simp add: fresh_ext_def)
    with z1 have "src_fd s1 \<noteq> 0" by fastforce
    moreover have "registry s2 = registry s @ []" using a b by (simp add: registry_def)
    ultimately show ?thesis using a b assms(4,5) unfolding acc_inv_def
      by (metis empty_iff list.set(1))
  qed
qed

lemma accept_at_extends: "accept_at s t \<Longrightarrow> extends (trace s) (trace t)"
proof (induction rule: accept_at.induct)
  case (first s s1 s2)
  have a: "extends (trace s) (trace s1)"
  proof (cases "src_fd s = 0")
    case True
    with first(1) have "listen_setup s = Ret () s1" by simp
    from listen_setup_run[OF this] show ?thesis
      by (simp add: rm_sockfile_def emit_def)
  next
    case False
    with first(1) show ?thesis by simp
  qed
  have "extends (trace s1) (trace s2)"
  proof (cases "cnt s1 = 0")
    case True
    with first(2) have "mk_blocking (src_fd s1) s1 = Ret () s2" by simp
    from mk_blocking_run[OF this] show ?thesis by auto
  next
    case False
    with first(2) show ?thesis by simp
  qed
  with a show ?case by (rule extends_trans)
next
  case (again s t t')
  from again.IH accept_round_trace[OF again.hyps(2)] show ?case by (rule extends_trans)
qed

lemma accept_at_inv:
  assumes "accept_at s t" and "acceptor_inv s" and "length (fd s) = MAXCLIENT"
    and "cnt s \<le> MAXCLIENT" and "fresh_ext (trace s) (trace t)"
  shows "acc_inv s t"
  using assms
proof (induction rule: accept_at.induct)
  case (first s s1 s2)
  from accept_at_first(2)[OF first] show ?case .
next
  case (again s t t')
  from fresh_ext_cut[OF accept_at_extends[OF again.hyps(1)] accept_round_trace[OF again.hyps(2)]
      again.prems(4)]
  have f: "fresh_ext (trace s) (trace t)" "fresh_ext (trace t) (trace t')" .
  from again.IH[OF again.prems(1,2,3) f(1)] have "acc_inv s t" .
  with again.hyps(2) show ?case using f(2) by (rule acc_inv_round)
qed

lemma accept_client_last:
  "accept_client s2 = Ret () s' \<Longrightarrow> accept_at s s2 \<Longrightarrow>
   \<exists>t. accept_at s t \<and> accept_round t = Ret False s'"
proof (induction s2 rule: accept_client.induct)
  case (1 s2)
  from "1.prems"(1) obtain ag t' where r: "accept_round s2 = Ret ag t'"
    and k: "(if ag then accept_client t' else Ret () t') = Ret () s'"
    by (subst (asm) accept_client.simps) (auto split: result.splits)
  show ?case
  proof (cases ag)
    case True
    with k have "accept_client t' = Ret () s'" by simp
    moreover from "1.prems"(2) r True have "accept_at s t'" by (auto intro: accept_at.again)
    ultimately show ?thesis using "1.IH"[OF r True] by blast
  next
    case False
    with k r "1.prems"(2) show ?thesis by auto
  qed
qed

lemma accept_round_admits:
  assumes "accept_round t = Ret again t'" and "cnt t' \<noteq> cnt t"
  shows "\<exists>c t3. blocking t3 c \<and> t' = admit c t3 \<and> fd t' = (fd t3)[cnt t3 := c]
    \<and> cnt t' = cnt t3 + 1"
proof -
  from accept_round_run[OF assms(1)] assms(2) obtain c v2 t3 where b: "t' = admit c t3"
    "cnt t3 = cnt t" "oflags t3 c = Some v2" "v2 AND O_NONBLOCK = 0"
    by auto
  from assms(2) b(1,2) have n: "MAXCLIENT \<noteq> cnt t3"
    by (auto simp: admit_def emit_def split: if_splits)
  have "blocking t3 c" using b(3,4) by (simp add: blocking_def)
  moreover have "fd t' = (fd t3)[cnt t3 := c]" "cnt t' = cnt t3 + 1"
    unfolding b(1) using n by (simp_all add: admit_def)
  ultimately show ?thesis using b(1) by blast
qed

lemma check_for_new_clients_run:
  assumes "check_for_new_clients s = Ret () s'"
  shows "\<exists>t. accept_at s t \<and> accept_round t = Ret False s'"
proof -
  from assms obtain s1 s2 where
    a1: "(if src_fd s = 0 then listen_setup s else Ret () s) = Ret () s1"
    and a2: "(if cnt s1 = 0 then mk_blocking (src_fd s1) s1 else Ret () s1) = Ret () s2"
    and a3: "accept_client s2 = Ret () s'"
    unfolding check_for_new_clients_def bnd_Ret_iff by auto
  from a1 a2 have "accept_at s s2" by (rule accept_at.first)
  from accept_client_last[OF a3 this] show ?thesis .
qed

lemma check_for_new_clients_inv:
  assumes "check_for_new_clients s = Ret () s'"
  shows "extends (trace s) (trace s')"
    "acceptor_inv s \<Longrightarrow> length (fd s) = MAXCLIENT \<Longrightarrow> cnt s \<le> MAXCLIENT \<Longrightarrow>
     fresh_ext (trace s) (trace s') \<Longrightarrow> acc_inv s s'"
proof -
  from check_for_new_clients_run[OF assms] obtain t where t: "accept_at s t"
    and r: "accept_round t = Ret False s'"
    by blast
  note e = accept_at_extends[OF t] accept_round_trace[OF r]
  from e show "extends (trace s) (trace s')" by (rule extends_trans)
  show "acc_inv s s'" if "acceptor_inv s" "length (fd s) = MAXCLIENT" "cnt s \<le> MAXCLIENT"
    "fresh_ext (trace s) (trace s')"
  proof -
    note f = fresh_ext_cut[OF e that(4)]
    from accept_at_inv[OF t that(1,2,3) f(1)] have "acc_inv s t" .
    with r show ?thesis using f(2) by (rule acc_inv_round)
  qed
qed

lemma stays_bnd:
  assumes "stays fl f n c tr m"
    and "\<And>x s1. oflags s1 = fl \<Longrightarrow> src_fd s1 = f \<Longrightarrow> length (fd s1) = n \<Longrightarrow> cnt s1 \<le> c
           \<Longrightarrow> extends tr (trace s1) \<Longrightarrow> stays fl f n c tr (g x s1)"
  shows "stays fl f n c tr (bnd m g)"
  using assms by (cases m) (auto simp: stays_def)

lemma stays_Ret:
  "oflags t = fl \<Longrightarrow> src_fd t = f \<Longrightarrow> length (fd t) = n \<Longrightarrow> cnt t \<le> c \<Longrightarrow>
   extends tr (trace t) \<Longrightarrow> stays fl f n c tr (Ret x t)"
  by (simp add: stays_def)

lemma stays_Stuck [simp]: "stays fl f n c tr Stuck"
  by (simp add: stays_def)

lemma stays_Halt [simp]: "stays fl f n c tr (Halt e t)"
  by (simp add: stays_def)

lemma stays_die [simp]: "stays fl f n c tr (die m e s)"
  by (simp add: stays_def die_def exit_proc_def Let_def)

lemma stays_syscall:
  "oflags s = fl \<Longrightarrow> src_fd s = f \<Longrightarrow> length (fd s) = n \<Longrightarrow> cnt s \<le> c \<Longrightarrow>
   extends tr (trace s) \<Longrightarrow> stays fl f n c tr (syscall s)"
  by (auto simp: stays_def syscall_def split: list.splits sysret.splits)

lemma stays_open_src:
  "oflags s = fl \<Longrightarrow> src_fd s = f \<Longrightarrow> length (fd s) = n \<Longrightarrow> cnt s \<le> c \<Longrightarrow>
   extends tr (trace s) \<Longrightarrow> stays fl f n c tr (open_src argv s)"
  unfolding open_src_def Let_def sys_popen_def
  by (auto intro!: stays_bnd stays_syscall stays_Ret
      simp: emit_def close_src_def signal_def split: option.splits)

lemma stays_alloc_buffer:
  "oflags s = fl \<Longrightarrow> src_fd s = f \<Longrightarrow> length (fd s) = n \<Longrightarrow> cnt s \<le> c \<Longrightarrow>
   extends tr (trace s) \<Longrightarrow> stays fl f n c tr (alloc_buffer s)"
  unfolding alloc_buffer_def Let_def
  by (auto intro!: stays_bnd stays_syscall stays_Ret)

lemma stays_sys_fread:
  "oflags s = fl \<Longrightarrow> src_fd s = f \<Longrightarrow> length (fd s) = n \<Longrightarrow> cnt s \<le> c \<Longrightarrow>
   extends tr (trace s) \<Longrightarrow> stays fl f n c tr (sys_fread s)"
  by (auto simp: stays_def sys_fread_def emit_def Let_def split: list.splits sysret.splits)

lemma stays_fread_loop:
  "oflags s = fl \<Longrightarrow> src_fd s = f \<Longrightarrow> length (fd s) = n \<Longrightarrow> cnt s \<le> c \<Longrightarrow>
   extends tr (trace s) \<Longrightarrow> stays fl f n c tr (fread_loop s)"
proof (induction s rule: fread_loop.induct)
  case (1 s)
  have k: "stays fl f n c tr (sys_fread s)" using "1.prems" by (rule stays_sys_fread)
  show ?case
  proof (cases "sys_fread s")
    case Stuck
    then show ?thesis by (simp add: fread_loop.simps[of s])
  next
    case (Halt e t)
    then show ?thesis by (simp add: fread_loop.simps[of s])
  next
    case (Ret err t)
    with k have g: "oflags t = fl" "src_fd t = f" "length (fd t) = n" "cnt t \<le> c"
      "extends tr (trace t)"
      by (simp_all add: stays_def)
    show ?thesis
    proof (cases "err < 1 \<and> (errno t = EINTR \<or> errno t = EAGAIN)")
      case True
      from "1.IH"[OF Ret True g] Ret True show ?thesis by (simp add: fread_loop.simps[of s])
    next
      case False
      with Ret g show ?thesis by (auto simp: fread_loop.simps[of s] stays_def)
    qed
  qed
qed

lemma stays_read_buf:
  "oflags s = fl \<Longrightarrow> src_fd s = f \<Longrightarrow> length (fd s) = n \<Longrightarrow> cnt s \<le> c \<Longrightarrow>
   extends tr (trace s) \<Longrightarrow> stays fl f n c tr (read_buf s)"
  unfolding read_buf_def
  by (auto intro!: stays_bnd stays_Ret stays_alloc_buffer stays_fread_loop)

lemma stays_sys_write:
  "oflags s = fl \<Longrightarrow> src_fd s = f \<Longrightarrow> length (fd s) = n \<Longrightarrow> cnt s \<le> c \<Longrightarrow>
   extends tr (trace s) \<Longrightarrow> stays fl f n c tr (sys_write d off nr s)"
  unfolding sys_write_def
  by (auto intro!: stays_bnd stays_syscall stays_Ret simp: emit_def)

lemma stays_write_all:
  "oflags s = fl \<Longrightarrow> src_fd s = f \<Longrightarrow> length (fd s) = n \<Longrightarrow> cnt s \<le> c \<Longrightarrow>
   extends tr (trace s) \<Longrightarrow> stays fl f n c tr (write_all i off nr s)"
proof (induction i off nr s rule: write_all.induct)
  case (1 i off nr s)
  have k: "stays fl f n c tr (sys_write (fd s ! i) off nr s)"
    using "1.prems" by (rule stays_sys_write)
  show ?case
  proof (cases "nr = 0")
    case True
    with "1.prems" show ?thesis by (simp add: write_all.simps stays_def)
  next
    case False
    note nz = this
    show ?thesis
    proof (cases "sys_write (fd s ! i) off nr s")
      case Stuck
      with nz show ?thesis by (simp add: write_all.simps[of i off nr s])
    next
      case (Halt e t)
      then show ?thesis by simp
    next
      case (Ret nw t)
      with k have g: "oflags t = fl" "src_fd t = f" "length (fd t) = n" "cnt t \<le> c"
        "extends tr (trace t)"
        by (simp_all add: stays_def)
      show ?thesis
        using nz Ret g "1.IH"(1)[OF nz Ret _ _ g] "1.IH"(2)[OF nz Ret _ g]
        by (auto simp: write_all.simps[of i off nr s] stays_def)
    qed
  qed
qed

lemma stays_write_loop:
  "oflags s = fl \<Longrightarrow> src_fd s = f \<Longrightarrow> length (fd s) = n \<Longrightarrow> cnt s \<le> c \<Longrightarrow>
   extends tr (trace s) \<Longrightarrow> stays fl f n c tr (write_loop i s)"
proof (induction i s rule: write_loop.induct)
  case (1 i s)
  have k: "stays fl f n c tr (write_all i 0 (bufsz s) s)" using "1.prems" by (rule stays_write_all)
  show ?case
  proof (cases "i < cnt s")
    case False
    with "1.prems" show ?thesis by (simp add: write_loop.simps[of i s] stays_def)
  next
    case True
    note lt = this
    show ?thesis
    proof (cases "write_all i 0 (bufsz s) s")
      case Stuck
      with lt show ?thesis by (simp add: write_loop.simps[of i s])
    next
      case (Halt e t)
      with lt show ?thesis by (simp add: write_loop.simps[of i s])
    next
      case (Ret nr t)
      with k have g: "oflags t = fl" "src_fd t = f" "length (fd t) = n" "cnt t \<le> c"
        "extends tr (trace t)"
        by (simp_all add: stays_def)
      have h: "oflags (drop_client i t) = fl" "src_fd (drop_client i t) = f"
        "length (fd (drop_client i t)) = n" "cnt (drop_client i t) \<le> c"
        "extends tr (trace (drop_client i t))"
        using g by (simp_all add: drop_client_def Let_def emit_def)
      show ?thesis
      proof (cases "nr = 0")
        case True
        from "1.IH"(1)[OF lt Ret True g] lt Ret True show ?thesis
          by (simp add: write_loop.simps[of i s])
      next
        case False
        from "1.IH"(2)[OF lt Ret False h] lt Ret False show ?thesis
          by (simp add: write_loop.simps[of i s])
      qed
    qed
  qed
qed

lemma server_iter_run:
  assumes "server_iter argv s = Ret () s'"
  shows "\<exists>s1. check_for_new_clients s = Ret () s1 \<and> oflags s' = oflags s1
    \<and> src_fd s' = src_fd s1 \<and> length (fd s') = length (fd s1) \<and> cnt s' \<le> cnt s1
    \<and> extends (trace s1) (trace s')"
proof -
  from assms obtain s1 where c: "check_for_new_clients s = Ret () s1"
    and r: "bnd (open_src argv s1) (\<lambda>_ s2. bnd (read_buf s2) (\<lambda>r s3.
              if r \<noteq> 0 then write_buf s3 else Ret () s3)) = Ret () s'"
    unfolding server_iter_def bnd_Ret_iff by auto
  have "stays (oflags s1) (src_fd s1) (length (fd s1)) (cnt s1) (trace s1)
     (bnd (open_src argv s1) (\<lambda>_ s2. bnd (read_buf s2) (\<lambda>r s3.
              if r \<noteq> 0 then write_buf s3 else Ret () s3)))"
    unfolding write_buf_def
    by (auto intro!: stays_bnd stays_Ret stays_open_src stays_read_buf stays_write_loop)
  with r c show ?thesis by (simp add: stays_def)
qed

lemma server_iter_inv:
  assumes "server_iter argv s = Ret () s'"
  shows "extends (trace s) (trace s')"
    "acceptor_inv s \<Longrightarrow> length (fd s) = MAXCLIENT \<Longrightarrow> cnt s \<le> MAXCLIENT \<Longrightarrow>
     fresh_ext (trace s) (trace s') \<Longrightarrow>
     acceptor_inv s' \<and> length (fd s') = MAXCLIENT \<and> cnt s' \<le> MAXCLIENT
     \<and> (cnt s' \<noteq> 0 \<longrightarrow> listen_mode_ok s')"
proof -
  from server_iter_run[OF assms] obtain s1 where c: "check_for_new_clients s = Ret () s1"
    and k: "oflags s' = oflags s1" "src_fd s' = src_fd s1" "length (fd s') = length (fd s1)"
    "cnt s' \<le> cnt s1" "extends (trace s1) (trace s')"
    by blast
  note e = check_for_new_clients_inv(1)[OF c] k(5)
  from e show "extends (trace s) (trace s')" by (rule extends_trans)
  show "acceptor_inv s' \<and> length (fd s') = MAXCLIENT \<and> cnt s' \<le> MAXCLIENT
     \<and> (cnt s' \<noteq> 0 \<longrightarrow> listen_mode_ok s')"
    if "acceptor_inv s" "length (fd s) = MAXCLIENT" "cnt s \<le> MAXCLIENT"
      "fresh_ext (trace s) (trace s')"
  proof -
    note f = fresh_ext_cut[OF e that(4)]
    from check_for_new_clients_inv(2)[OF c that(1,2,3) f(1)] have "acc_inv s s1" .
    then have i: "listen_mode_ok s1" "src_fd s1 \<noteq> 0" "length (fd s1) = MAXCLIENT"
      "cnt s1 \<le> MAXCLIENT"
      by (simp_all add: acc_inv_def)
    have "nonblocking s' (src_fd s')" if "cnt s' \<noteq> 0"
    proof -
      from that k(4) have "cnt s1 \<noteq> 0" by simp
      with i(1) have "nonblocking s1 (src_fd s1)" by (simp add: listen_mode_ok_def)
      then show ?thesis using k(1,2) by (simp add: nonblocking_def)
    qed
    then show ?thesis using i k by (auto simp: acceptor_inv_def listen_mode_ok_def)
  qed
qed

lemma iter_at_extends: "iter_at argv s0 s \<Longrightarrow> extends (trace s0) (trace s)"
proof (induction rule: iter_at.induct)
  case (start argv s)
  show ?case by simp
next
  case (step argv s t t')
  from step.IH server_iter_inv(1)[OF step.hyps(2)] show ?case by (rule extends_trans)
qed

lemma iter_at_inv:
  assumes "iter_at argv s0 s" and "acceptor_inv s0" and "length (fd s0) = MAXCLIENT"
    and "cnt s0 \<le> MAXCLIENT" and "fresh_ext (trace s0) (trace s)"
  shows "acceptor_inv s \<and> length (fd s) = MAXCLIENT \<and> cnt s \<le> MAXCLIENT"
  using assms
proof (induction rule: iter_at.induct)
  case (start argv s)
  then show ?case by simp
next
  case (step argv s t t')
  note f = fresh_ext_cut[OF iter_at_extends[OF step.hyps(1)] server_iter_inv(1)[OF step.hyps(2)]
      step.prems(4)]
  from step.IH[OF step.prems(1,2,3) f(1)]
  have i: "acceptor_inv t" "length (fd t) = MAXCLIENT" "cnt t \<le> MAXCLIENT" by simp_all
  from server_iter_inv(2)[OF step.hyps(2) i f(2)] show ?case by simp
qed

text \<open>C6, as it stands, at an input: the only client is accepted, the producer is spawned and
  delivers a buffer, and the write to the client fails with \<open>EPIPE\<close>. When the iteration
  returns the registry is empty and the listening socket is non-blocking, as the
  \<open>mk_nonblocking\<close> after the \<open>accept\<close> left it: \<open>write_buf\<close> drops the client and does not
  touch the listening socket.\<close>

theorem last_client_dropped_counterexample:
  "case server_iter [''sh'', ''encode.sh''] last_client_state of
     Ret u t \<Rightarrow> cnt t = 0 \<and> registry t = [] \<and> nonblocking t (src_fd t) \<and> \<not> listen_mode_ok t
   | _ \<Rightarrow> False"
  by code_simp

text \<open>C6, amended. The mode of the listening socket follows the registry at the points
  where it is used and while clients remain, not in every state. Let the server loop start in
  a state \<open>s0\<close> where, if there are clients, the listening socket exists and is non-blocking
  (at the start of the server there is no client), and let \<open>socket\<close> and \<open>accept\<close> return
  fresh descriptors. Then in every iteration of the loop, begun in a state \<open>s\<close>: at every
  call of \<open>accept\<close>, and when \<open>check_for_new_clients\<close> returns, the listening socket is
  blocking if the registry is empty and non-blocking otherwise; a pass that appends a client
  to the registry appends it in a state where that client is blocking; the registry when
  \<open>check_for_new_clients\<close> returns is the one at its call followed by blocking clients; and
  when the iteration returns with a client left, the listening socket is non-blocking. (When
  it returns with no client left, the socket is non-blocking still, and the loop ends.)\<close>

theorem listen_mode_follows_registry:
  assumes "acceptor_inv s0" and "length (fd s0) = MAXCLIENT" and "cnt s0 \<le> MAXCLIENT"
    and "iter_at argv s0 s"
  shows "(\<forall>t. accept_at s t \<longrightarrow> fresh_ext (trace s0) (trace t) \<longrightarrow> listen_mode_ok t)
    \<and> (\<forall>t again t'. accept_at s t \<longrightarrow> accept_round t = Ret again t' \<longrightarrow> cnt t' \<noteq> cnt t \<longrightarrow>
          (\<exists>c t3. blocking t3 c \<and> t' = admit c t3 \<and> fd t' = (fd t3)[cnt t3 := c]
             \<and> cnt t' = cnt t3 + 1))
    \<and> (\<forall>s'. check_for_new_clients s = Ret () s' \<longrightarrow> fresh_ext (trace s0) (trace s') \<longrightarrow>
          listen_mode_ok s'
          \<and> (\<exists>new. registry s' = registry s @ new \<and> (\<forall>c\<in>set new. blocking s' c)))
    \<and> (\<forall>s'. server_iter argv s = Ret () s' \<longrightarrow> fresh_ext (trace s0) (trace s') \<longrightarrow>
          cnt s' \<noteq> 0 \<longrightarrow> listen_mode_ok s' \<and> iter_at argv s0 s')"
proof -
  note e0 = iter_at_extends[OF assms(4)]
  have p1: "listen_mode_ok t" if "accept_at s t" "fresh_ext (trace s0) (trace t)" for t
  proof -
    note f = fresh_ext_cut[OF e0 accept_at_extends[OF that(1)] that(2)]
    from iter_at_inv[OF assms(4,1,2,3) f(1)]
    have i: "acceptor_inv s" "length (fd s) = MAXCLIENT" "cnt s \<le> MAXCLIENT" by simp_all
    from accept_at_inv[OF that(1) i f(2)] show ?thesis by (simp add: acc_inv_def)
  qed
  have p2: "\<exists>c t3. blocking t3 c \<and> t' = admit c t3 \<and> fd t' = (fd t3)[cnt t3 := c]
             \<and> cnt t' = cnt t3 + 1"
    if "accept_round t = Ret again t'" "cnt t' \<noteq> cnt t" for t again t'
    using that by (rule accept_round_admits)
  have p3: "listen_mode_ok s'
          \<and> (\<exists>new. registry s' = registry s @ new \<and> (\<forall>c\<in>set new. blocking s' c))"
    if c: "check_for_new_clients s = Ret () s'" and f: "fresh_ext (trace s0) (trace s')" for s'
  proof -
    note f = fresh_ext_cut[OF e0 check_for_new_clients_inv(1)[OF c] f]
    from iter_at_inv[OF assms(4,1,2,3) f(1)]
    have i: "acceptor_inv s" "length (fd s) = MAXCLIENT" "cnt s \<le> MAXCLIENT" by simp_all
    from check_for_new_clients_inv(2)[OF c i f(2)] have "acc_inv s s'" .
    then have l: "listen_mode_ok s'"
      and "\<exists>new. registry s' = registry s @ new
             \<and> (\<forall>c\<in>set new. blocking s' c \<and> c \<noteq> src_fd s')"
      by (simp_all add: acc_inv_def)
    then have "\<exists>new. registry s' = registry s @ new \<and> (\<forall>c\<in>set new. blocking s' c)" by blast
    with l show ?thesis by simp
  qed
  have p4: "listen_mode_ok s' \<and> iter_at argv s0 s'"
    if c: "server_iter argv s = Ret () s'" and f: "fresh_ext (trace s0) (trace s')"
      and n: "cnt s' \<noteq> 0" for s'
  proof -
    note f = fresh_ext_cut[OF e0 server_iter_inv(1)[OF c] f]
    from iter_at_inv[OF assms(4,1,2,3) f(1)]
    have i: "acceptor_inv s" "length (fd s) = MAXCLIENT" "cnt s \<le> MAXCLIENT" by simp_all
    from server_iter_inv(2)[OF c i f(2)] n have "listen_mode_ok s'" by simp
    moreover from assms(4) c n have "iter_at argv s0 s'" by (rule iter_at.step)
    ultimately show ?thesis ..
  qed
  from p1 p2 p3 p4 show ?thesis by blast
qed

theorem listen_mode_follows_registry_witness:
  "acceptor_inv arrival_state \<and> length (fd arrival_state) = MAXCLIENT
   \<and> cnt arrival_state \<le> MAXCLIENT
   \<and> (\<exists>s t' s'. iter_at [''sh'', ''encode.sh''] arrival_state s
        \<and> server_iter [''sh'', ''encode.sh''] arrival_state = Ret () s \<and> cnt s \<noteq> 0
        \<and> accept_at s s \<and> fresh_ext (trace arrival_state) (trace s)
        \<and> listen_mode_ok s
        \<and> accept_round s = Ret True t' \<and> cnt t' \<noteq> cnt s
        \<and> (\<exists>c t3. blocking t3 c \<and> t' = admit c t3 \<and> fd t' = (fd t3)[cnt t3 := c]
             \<and> cnt t' = cnt t3 + 1)
        \<and> check_for_new_clients s = Ret () s'
        \<and> fresh_ext (trace arrival_state) (trace s') \<and> listen_mode_ok s'
        \<and> (\<exists>new. registry s' = registry s @ new \<and> (\<forall>c\<in>set new. blocking s' c)))"
proof -
  have h: "acceptor_inv arrival_state" "length (fd arrival_state) = MAXCLIENT"
    "cnt arrival_state \<le> MAXCLIENT"
    by (simp_all add: arrival_state_def set_names_def Let_def init_state_def acceptor_inv_def)
  have z: "trace arrival_state = []"
    by (simp add: arrival_state_def set_names_def Let_def init_state_def)
  have "case server_iter [''sh'', ''encode.sh''] arrival_state of
          Ret u s \<Rightarrow> cnt s \<noteq> 0 \<and> src_fd s \<noteq> 0 \<and> list_all fresh (trace s) \<and>
            (case accept_round s of
               Ret ag t' \<Rightarrow> ag \<and> cnt t' \<noteq> cnt s \<and>
                 (case accept_round t' of
                    Ret ag2 s' \<Rightarrow> \<not> ag2 \<and> list_all fresh (trace s')
                  | _ \<Rightarrow> False)
             | _ \<Rightarrow> False)
        | _ \<Rightarrow> False"
    by code_simp
  then obtain s t' s' where a1: "server_iter [''sh'', ''encode.sh''] arrival_state = Ret () s"
    and c1: "cnt s \<noteq> 0" and c0: "src_fd s \<noteq> 0" and f1: "list_all fresh (trace s)"
    and r1: "accept_round s = Ret True t'"
    and c2: "cnt t' \<noteq> cnt s" and r2: "accept_round t' = Ret False s'"
    and f3: "list_all fresh (trace s')"
    by (auto split: result.splits)
  have it: "iter_at [''sh'', ''encode.sh''] arrival_state s"
    using iter_at.start a1 c1 by (rule iter_at.step)
  have at: "accept_at s s"
    by (rule accept_at.first[of _ s]) (simp_all add: c0 c1)
  have ck: "check_for_new_clients s = Ret () s'"
    by (simp add: check_for_new_clients_def c0 c1
        accept_client.simps[of s] accept_client.simps[of t'] r1 r2)
  have g1: "fresh_ext (trace arrival_state) (trace s)"
    and g3: "fresh_ext (trace arrival_state) (trace s')"
    using f1 f3 by (simp_all add: z fresh_ext_Nil)
  show ?thesis
    using h it a1 c1 at g1 r1 c2 ck g3 listen_mode_follows_registry[OF h it] by blast
qed

section \<open>The files of the instance at an exit\<close>

text \<open>C10, as it stands, at an input: \<open>delivery -n tuner -x\<close>. \<open>getopt\<close> reports the unknown
  option, \<open>usage\<close> leaves through \<open>die\<close>, and the two \<open>unlink\<close> calls of \<open>die\<close> are given the
  null pointers that \<open>SOCKFILE\<close> and \<open>PIDFILE\<close> still are: no file of the instance \<open>tuner\<close> is
  unlinked.\<close>

theorem die_before_names_counterexample:
  "case main [(CHR ''n'', ''tuner''), (CHR ''?'', [])] [] (init_state 100 [] []) of
     Halt e t \<Rightarrow> e = Exited EINVAL \<and> trace t = [Unlink None, Unlink None]
   | _ \<Rightarrow> False"
  by (simp add: main_def prologue_def usage_def die_def exit_proc_def Let_def init_state_def
      rm_sockfile_def rm_pidfile_def emit_def close_src_def close_clients.simps)

text \<open>A server binds the first 107 characters of the name of the socket file: with an
  instance name of 89 characters the name bound is not the name that \<open>die\<close> unlinks.\<close>

lemma long_name_binds_prefix:
  "mk_sockaddr (set_names ((init_state 100 [] [])\<lparr>tmpbasename := Some (replicate 89 CHR ''a'')\<rparr>))
   \<noteq> SOCKFILE (set_names ((init_state 100 [] [])\<lparr>tmpbasename := Some (replicate 89 CHR ''a'')\<rparr>))"
  by (simp add: mk_sockaddr_def set_names_def Let_def init_state_def file_name_def TMPDIR_def
      SUN_PATH_SIZE_def)

text \<open>C10, amended. Once \<open>main\<close> has derived the file names from the instance name, an exit
  through \<open>die\<close> calls \<open>unlink\<close> on the socket file and on the PID file of that name, whatever
  the process is: \<open>die\<close> does so in every state that holds these names; a client whose
  \<open>connect\<close> fails leaves that way, and so does a server started without a command. The PID
  file is the one a running server of that name wrote. The socket file is the one such a
  server is bound to exactly when its name has fewer than 108 characters: a server binds the
  first 107 characters of the name (\<open>mk_sockaddr\<close>), and with a longer name the \<open>unlink\<close> is
  given a name that the server is not bound to.\<close>

theorem die_unlinks_instance_files:
  assumes "prologue opts (init_state p env scr) = Ret os s3"
    and "\<not> opt_dryrun os" and "\<not> opt_restart os"
  shows "\<exists>n. tmpbasename s3 = Some n
    \<and> SOCKFILE s3 = Some (file_name n ''.sock'') \<and> PIDFILE s3 = Some (file_name n ''.pid'')
    \<and> (\<forall>message e t. cnt t \<le> length (fd t) \<longrightarrow> SOCKFILE t = SOCKFILE s3
          \<longrightarrow> PIDFILE t = PIDFILE s3 \<longrightarrow>
          (\<exists>t' evs. (die message e t :: unit result) = Halt (Exited e) t' \<and> trace t' = trace t @ evs
             \<and> Unlink (Some (file_name n ''.sock'')) \<in> set evs
             \<and> Unlink (Some (file_name n ''.pid'')) \<in> set evs))
    \<and> (\<forall>f e rest. opt_client os \<longrightarrow> script s3 = Ok f # Fail e # rest \<longrightarrow> 0 \<le> f \<longrightarrow>
          (\<exists>t' evs. main opts argv (init_state p env scr) = Halt (Exited e) t'
             \<and> trace t' = trace s3 @ evs
             \<and> Unlink (Some (file_name n ''.sock'')) \<in> set evs
             \<and> Unlink (Some (file_name n ''.pid'')) \<in> set evs))
    \<and> (\<not> opt_client os \<longrightarrow> argv = [] \<longrightarrow>
          (\<exists>t' evs. main opts argv (init_state p env scr) = Halt (Exited 1) t'
             \<and> trace t' = trace s3 @ evs
             \<and> Unlink (Some (file_name n ''.sock'')) \<in> set evs
             \<and> Unlink (Some (file_name n ''.pid'')) \<in> set evs))
    \<and> mk_sockaddr s3 = Some (take (SUN_PATH_SIZE - 1) (file_name n ''.sock''))
    \<and> (mk_sockaddr s3 = SOCKFILE s3) = (length (file_name n ''.sock'') < SUN_PATH_SIZE)
    \<and> (\<forall>t u t'. SOCKFILE t = SOCKFILE s3 \<longrightarrow> listen_setup t = Ret u t' \<longrightarrow>
          Bind (src_fd t') (mk_sockaddr s3) 0 \<in> set (trace t'))
    \<and> (\<forall>t u t'. PIDFILE t = PIDFILE s3 \<longrightarrow> wrt_pidfile t = Ret u t' \<longrightarrow>
          WritePid (Some (file_name n ''.pid'')) (pid t) \<in> set (trace t'))"
proof -
  from prologue_run[OF assms(1)] obtain n where n: "tmpbasename s3 = Some n"
    "SOCKFILE s3 = Some (file_name n ''.sock'')" "PIDFILE s3 = Some (file_name n ''.pid'')"
    "cnt s3 = 0"
    by blast
  have gen: "\<exists>t' evs. (die message e t :: unit result) = Halt (Exited e) t' \<and> trace t' = trace t @ evs
             \<and> Unlink (Some (file_name n ''.sock'')) \<in> set evs
             \<and> Unlink (Some (file_name n ''.pid'')) \<in> set evs"
    if "cnt t \<le> length (fd t)" "SOCKFILE t = SOCKFILE s3" "PIDFILE t = PIDFILE s3"
    for message e t
  proof -
    from die_run[OF that(1), of message e] obtain t' where
      d: "(die message e t :: unit result) = Halt (Exited e) t'"
      "trace t' = trace t @ die_events message e t"
      by blast
    have "Unlink (Some (file_name n ''.sock'')) \<in> set (die_events message e t)"
      "Unlink (Some (file_name n ''.pid'')) \<in> set (die_events message e t)"
      using that(2,3) n(2,3) by (simp_all add: die_events_def)
    with d show ?thesis by blast
  qed
  have cl: "\<exists>t' evs. main opts argv (init_state p env scr) = Halt (Exited e) t'
             \<and> trace t' = trace s3 @ evs
             \<and> Unlink (Some (file_name n ''.sock'')) \<in> set evs
             \<and> Unlink (Some (file_name n ''.pid'')) \<in> set evs"
    if "opt_client os" "script s3 = Ok f # Fail e # rest" "0 \<le> f" for f e rest
  proof -
    define t where "t = emit (Connect f (mk_sockaddr s3) (- 1))
        ((emit (Socket f) (s3\<lparr>script := Fail e # rest\<rparr>))\<lparr>script := rest, errno := e\<rparr>)"
    have m: "main opts argv (init_state p env scr) = die (Some ''connect'') e t"
      using main_after_prologue[OF assms] that
      by (simp add: client_def Let_def syscall_def emit_def t_def)
    have "cnt t \<le> length (fd t)" "SOCKFILE t = SOCKFILE s3" "PIDFILE t = PIDFILE s3"
      "trace t = trace s3 @ [Socket f, Connect f (mk_sockaddr s3) (- 1)]"
      using n(4) by (simp_all add: t_def emit_def)
    from gen[OF this(1,2,3), of "Some ''connect''" e] obtain t' evs where
      g: "(die (Some ''connect'') e t :: unit result) = Halt (Exited e) t'" "trace t' = trace t @ evs"
        "Unlink (Some (file_name n ''.sock'')) \<in> set evs"
        "Unlink (Some (file_name n ''.pid'')) \<in> set evs"
      by blast
    have a1: "main opts argv (init_state p env scr) = Halt (Exited e) t'"
      using m g(1) by simp
    have a2: "trace t' = trace s3 @ ([Socket f, Connect f (mk_sockaddr s3) (- 1)] @ evs)"
      using g(2) \<open>trace t = trace s3 @ [Socket f, Connect f (mk_sockaddr s3) (- 1)]\<close> by simp
    have a3: "Unlink (Some (file_name n ''.sock'')) \<in> set ([Socket f, Connect f (mk_sockaddr s3) (- 1)] @ evs)"
      and a4: "Unlink (Some (file_name n ''.pid'')) \<in> set ([Socket f, Connect f (mk_sockaddr s3) (- 1)] @ evs)"
      using g(3,4) by simp_all
    show ?thesis
      by (rule exI[of _ t'], rule exI[of _ "[Socket f, Connect f (mk_sockaddr s3) (- 1)] @ evs"])
        (intro conjI a1 a2 a3 a4)
  qed
  have sv: "\<exists>t' evs. main opts argv (init_state p env scr) = Halt (Exited 1) t'
             \<and> trace t' = trace s3 @ evs
             \<and> Unlink (Some (file_name n ''.sock'')) \<in> set evs
             \<and> Unlink (Some (file_name n ''.pid'')) \<in> set evs"
    if "\<not> opt_client os" "argv = []"
  proof -
    have m: "main opts argv (init_state p env scr) = die (Some ''no arguments'') 1 s3"
      using main_after_prologue[OF assms] that by simp
    have "cnt s3 \<le> length (fd s3)" using n(4) by simp
    from gen[OF this refl refl, of "Some ''no arguments''" 1] m show ?thesis by simp
  qed
  have bd: "mk_sockaddr s3 = Some (take (SUN_PATH_SIZE - 1) (file_name n ''.sock''))"
    using n(2) by (simp add: mk_sockaddr_def)
  have eqv: "(mk_sockaddr s3 = SOCKFILE s3) = (length (file_name n ''.sock'') < SUN_PATH_SIZE)"
    unfolding bd n(2) by (auto simp: SUN_PATH_SIZE_def)
  have sb: "Bind (src_fd t') (mk_sockaddr s3) 0 \<in> set (trace t')"
    if "SOCKFILE t = SOCKFILE s3" "listen_setup t = Ret u t'" for t u t'
  proof -
    from that(1) have "mk_sockaddr t = mk_sockaddr s3" by (simp add: mk_sockaddr_def)
    with listen_setup_run[OF that(2)] show ?thesis by simp
  qed
  have wp: "WritePid (Some (file_name n ''.pid'')) (pid t) \<in> set (trace t')"
    if "PIDFILE t = PIDFILE s3" "wrt_pidfile t = Ret u t'" for t u t'
  proof -
    from that(2) obtain fp s1 where a: "syscall t = Ret fp s1"
      and b: "t' = emit (WritePid (PIDFILE s1) (pid s1)) (atexit A_rm_pidfile s1)"
      by (auto simp: wrt_pidfile_def bnd_Ret_iff split: if_splits)
    note f = only_io_fields(9,11)[OF syscall_only_io[OF a]]
    show ?thesis unfolding b using f that(1) n(3) by (simp add: emit_def)
  qed
  show ?thesis
  proof (intro exI[of _ n] conjI allI impI)
    show "tmpbasename s3 = Some n" "SOCKFILE s3 = Some (file_name n ''.sock'')"
      "PIDFILE s3 = Some (file_name n ''.pid'')"
      by (rule n)+
  qed (rule gen cl sv bd eqv sb wp; assumption)+
qed


theorem die_unlinks_instance_files_witness:
  "\<exists>os s3. prologue [(CHR ''n'', ''tuner''), (CHR ''c'', [])] (init_state 100 [] [Ok 3, Fail 111])
       = Ret os s3
     \<and> \<not> opt_dryrun os \<and> \<not> opt_restart os \<and> opt_client os
     \<and> script s3 = Ok 3 # Fail 111 # [] \<and> (0::int) \<le> 3
     \<and> (\<exists>t' evs. main [(CHR ''n'', ''tuner''), (CHR ''c'', [])] []
                      (init_state 100 [] [Ok 3, Fail 111]) = Halt (Exited 111) t'
           \<and> trace t' = trace s3 @ evs
           \<and> Unlink (Some (file_name ''tuner'' ''.sock'')) \<in> set evs
           \<and> Unlink (Some (file_name ''tuner'' ''.pid'')) \<in> set evs)
     \<and> length (file_name ''tuner'' ''.sock'') < SUN_PATH_SIZE
     \<and> mk_sockaddr s3 = SOCKFILE s3
     \<and> (\<exists>t'. listen_setup (s3\<lparr>script := [Ok 3, Ok 0, Ok 0]\<rparr>) = Ret () t'
           \<and> Bind (src_fd t') (Some (file_name ''tuner'' ''.sock'')) 0 \<in> set (trace t'))
     \<and> (\<exists>t'. wrt_pidfile (s3\<lparr>script := [Ok 7]\<rparr>) = Ret () t'
           \<and> WritePid (Some (file_name ''tuner'' ''.pid'')) 100 \<in> set (trace t'))"
proof -
  have "case prologue [(CHR ''n'', ''tuner''), (CHR ''c'', [])] (init_state 100 [] [Ok 3, Fail 111]) of
          Ret os s3 \<Rightarrow> \<not> opt_dryrun os \<and> \<not> opt_restart os \<and> opt_client os
             \<and> script s3 = Ok 3 # Fail 111 # [] \<and> tmpbasename s3 = Some ''tuner''
             \<and> \<not> world s3 \<and> src_fd s3 = 0 \<and> pid s3 = 100
        | _ \<Rightarrow> False"
    by (simp add: prologue_def init_state_def set_names_def Let_def)
  then obtain os s3 where
    a: "prologue [(CHR ''n'', ''tuner''), (CHR ''c'', [])] (init_state 100 [] [Ok 3, Fail 111])
          = Ret os s3"
    and b: "\<not> opt_dryrun os" and c: "\<not> opt_restart os" and d: "opt_client os"
    and f: "script s3 = Ok 3 # Fail 111 # []" and g: "tmpbasename s3 = Some ''tuner''"
    and w: "\<not> world s3" "src_fd s3 = 0" "pid s3 = 100"
    by (auto split: result.splits)
  have h: "(0::int) \<le> 3" by simp
  have ln: "length (file_name ''tuner'' ''.sock'') < SUN_PATH_SIZE"
    by (simp add: file_name_def TMPDIR_def SUN_PATH_SIZE_def)
  have "\<exists>t'. listen_setup (s3\<lparr>script := [Ok 3, Ok 0, Ok 0]\<rparr>) = Ret () t'"
    using w by (simp add: listen_setup_def Let_def syscall_def emit_def atexit_def
        rm_sockfile_def)
  then obtain t1 where ls: "listen_setup (s3\<lparr>script := [Ok 3, Ok 0, Ok 0]\<rparr>) = Ret () t1" ..
  have "\<exists>t'. wrt_pidfile (s3\<lparr>script := [Ok 7]\<rparr>) = Ret () t'"
    by (simp add: wrt_pidfile_def syscall_def)
  then obtain t2 where wr: "wrt_pidfile (s3\<lparr>script := [Ok 7]\<rparr>) = Ret () t2" ..
  from die_unlinks_instance_files[OF a b c, of "[]"] obtain n where
    n: "tmpbasename s3 = Some n"
    and k: "\<forall>f e rest. opt_client os \<longrightarrow> script s3 = Ok f # Fail e # rest \<longrightarrow> 0 \<le> f \<longrightarrow>
          (\<exists>t' evs. main [(CHR ''n'', ''tuner''), (CHR ''c'', [])] [] (init_state 100 [] [Ok 3, Fail 111])
                       = Halt (Exited e) t'
             \<and> trace t' = trace s3 @ evs
             \<and> Unlink (Some (file_name n ''.sock'')) \<in> set evs
             \<and> Unlink (Some (file_name n ''.pid'')) \<in> set evs)"
    and sf: "SOCKFILE s3 = Some (file_name n ''.sock'')"
    and eqv: "(mk_sockaddr s3 = SOCKFILE s3) = (length (file_name n ''.sock'') < SUN_PATH_SIZE)"
    and sb: "\<forall>t u t'. SOCKFILE t = SOCKFILE s3 \<longrightarrow> listen_setup t = Ret u t' \<longrightarrow>
          Bind (src_fd t') (mk_sockaddr s3) 0 \<in> set (trace t')"
    and wp: "\<forall>t u t'. PIDFILE t = PIDFILE s3 \<longrightarrow> wrt_pidfile t = Ret u t' \<longrightarrow>
          WritePid (Some (file_name n ''.pid'')) (pid t) \<in> set (trace t')"
    by blast
  have nn: "n = ''tuner''" using n g by simp
  from k[rule_format, OF d f h]
  have m: "\<exists>t' evs. main [(CHR ''n'', ''tuner''), (CHR ''c'', [])] []
                      (init_state 100 [] [Ok 3, Fail 111]) = Halt (Exited 111) t'
           \<and> trace t' = trace s3 @ evs
           \<and> Unlink (Some (file_name ''tuner'' ''.sock'')) \<in> set evs
           \<and> Unlink (Some (file_name ''tuner'' ''.pid'')) \<in> set evs"
    unfolding nn .
  from eqv ln have e1: "mk_sockaddr s3 = SOCKFILE s3" unfolding nn by simp
  have p1: "SOCKFILE (s3\<lparr>script := [Ok 3, Ok 0, Ok 0]\<rparr>) = SOCKFILE s3" by simp
  from sb[rule_format, OF p1 ls]
  have "Bind (src_fd t1) (Some (file_name ''tuner'' ''.sock'')) 0 \<in> set (trace t1)"
    unfolding e1 sf nn .
  with ls have e2: "\<exists>t'. listen_setup (s3\<lparr>script := [Ok 3, Ok 0, Ok 0]\<rparr>) = Ret () t'
           \<and> Bind (src_fd t') (Some (file_name ''tuner'' ''.sock'')) 0 \<in> set (trace t')"
    by blast
  have p2: "PIDFILE (s3\<lparr>script := [Ok 7]\<rparr>) = PIDFILE s3" by simp
  from wp[rule_format, OF p2 wr]
  have "WritePid (Some (file_name ''tuner'' ''.pid'')) 100 \<in> set (trace t2)"
    unfolding nn using w(3) by simp
  with wr have e3: "\<exists>t'. wrt_pidfile (s3\<lparr>script := [Ok 7]\<rparr>) = Ret () t'
           \<and> WritePid (Some (file_name ''tuner'' ''.pid'')) 100 \<in> set (trace t')"
    by blast
  from a b c d f h m ln e1 e2 e3 show ?thesis by blast
qed

end
